theory Spec2Isabelle
  imports Main "HOL-Library.Word"
begin

section \<open>Data model\<close>

text \<open>
  The only persisted entity is the segment document of \<^verbatim>\<open>blobstore.go\<close>
  (\<^verbatim>\<open>type blobSegment struct\<close>): the three \<^verbatim>\<open>uint64\<close> fields are 64-bit words, the
  payload is a list of bytes.
\<close>

type_synonym byte = "8 word"
type_synonym uint64 = "64 word"

record blobSegment =
  ID :: string
  Seq :: uint64
  Data :: "byte list"
  Start :: uint64
  N :: uint64

text \<open>
  Go errors as values. \<open>ErrNotFound\<close> is the package's own sentinel; \<open>EOF\<close>,
  \<open>ErrUnexpectedEOF\<close> and \<open>ErrShortBuffer\<close> are the sentinels of package \<^verbatim>\<open>io\<close>;
  \<open>ErrStore\<close> stands for any error of the database driver, \<open>ErrInput\<close> for any other
  error of the caller's reader, and \<open>NilDereference\<close> for the run-time panic of a
  method call on a nil interface.
\<close>

datatype error =
    ErrNotFound
  | EOF
  | ErrUnexpectedEOF
  | ErrShortBuffer
  | ErrStore
  | ErrInput string
  | NilDereference

definition DefaultChunkSize :: int where
  "DefaultChunkSize = 2048 * 1024"

section \<open>The backing collection\<close>

text \<open>
  The MongoDB collection is the external collaborator. It is modelled by the documents
  it holds (in insertion order), whether the unique index on \<open>(blobId, seq)\<close> exists,
  the number of round trips made so far, and a schedule of the coming round trips:
  the head of \<open>faults\<close> tells whether the next round trip fails (\<open>True\<close>); a round
  trip beyond the schedule succeeds. A failed round trip changes no document.
\<close>

record collection =
  docs :: "blobSegment list"
  uniqueIndex :: bool
  faults :: "bool list"
  trips :: nat

definition round_trip :: "collection \<Rightarrow> bool \<times> collection" where
  "round_trip c =
     (case faults c of
        [] \<Rightarrow> (False, c\<lparr>trips := Suc (trips c)\<rparr>)
      | f # fs \<Rightarrow> (f, c\<lparr>faults := fs, trips := Suc (trips c)\<rparr>))"

text \<open>Replace the first document that matches, or insert when none does (upsert).\<close>

fun upsert :: "('a \<Rightarrow> bool) \<Rightarrow> 'a \<Rightarrow> 'a list \<Rightarrow> 'a list" where
  "upsert p x [] = [x]"
| "upsert p x (d # ds) = (if p d then x # ds else d # upsert p x ds)"

definition ReplaceOne ::
  "collection \<Rightarrow> string \<Rightarrow> uint64 \<Rightarrow> blobSegment \<Rightarrow> error option \<times> collection" where
  "ReplaceOne c bid sq doc =
     (case round_trip c of
        (True, c') \<Rightarrow> (Some ErrStore, c')
      | (False, c') \<Rightarrow>
          (None, c'\<lparr>docs := upsert (\<lambda>d. ID d = bid \<and> Seq d = sq) doc (docs c')\<rparr>))"

definition DeleteMany ::
  "collection \<Rightarrow> (blobSegment \<Rightarrow> bool) \<Rightarrow> error option \<times> collection" where
  "DeleteMany c flt =
     (case round_trip c of
        (True, c') \<Rightarrow> (Some ErrStore, c')
      | (False, c') \<Rightarrow> (None, c'\<lparr>docs := filter (\<lambda>d. \<not> flt d) (docs c')\<rparr>))"

text \<open>
  \<open>Find\<close> with a sort on \<open>seq\<close>: the cursor is the list of matching documents in
  ascending (\<open>asc = True\<close>, sort value 1) or descending (sort value -1) order.
\<close>

definition Find ::
  "collection \<Rightarrow> string \<Rightarrow> bool \<Rightarrow> (error + blobSegment list) \<times> collection" where
  "Find c bid asc =
     (case round_trip c of
        (True, c') \<Rightarrow> (Inl ErrStore, c')
      | (False, c') \<Rightarrow>
          (let ms = sort_key Seq (filter (\<lambda>d. ID d = bid) (docs c'))
           in (Inr (if asc then ms else rev ms), c')))"

text \<open>
  Creating the unique compound index fails when two documents already share
  \<open>(blobId, seq)\<close>.
\<close>

definition seg_key :: "blobSegment \<Rightarrow> string \<times> uint64" where
  "seg_key d = (ID d, Seq d)"

definition CreateOne :: "collection \<Rightarrow> error option \<times> collection" where
  "CreateOne c =
     (case round_trip c of
        (True, c') \<Rightarrow> (Some ErrStore, c')
      | (False, c') \<Rightarrow>
          (if distinct (map seg_key (docs c')) then (None, c'\<lparr>uniqueIndex := True\<rparr>)
           else (Some ErrStore, c')))"

section \<open>Input streams\<close>

text \<open>
  An \<^verbatim>\<open>io.Reader\<close> is any value with a \<^verbatim>\<open>Read\<close> method. Given the length of the
  buffer it is handed, a reader answers with the bytes it stores at the front of the
  buffer and an optional error (\<open>rd_out\<close>) and moves to its next state (\<open>rd_next\<close>).
\<close>

codatatype reader =
  Reader (rd_out: "nat \<Rightarrow> byte list \<times> error option") (rd_next: "nat \<Rightarrow> reader")

text \<open>
  \<^verbatim>\<open>r.Read(p)\<close>: the bytes read (never more than \<open>len(p)\<close>), the error, the buffer
  after the call and the reader after the call.
\<close>

definition reader_Read ::
  "reader \<Rightarrow> byte list \<Rightarrow> byte list \<times> error option \<times> byte list \<times> reader" where
  "reader_Read r p =
     (let bs = take (length p) (fst (rd_out r (length p)))
      in (bs, snd (rd_out r (length p)), bs @ drop (length bs) p, rd_next r (length p)))"

text \<open>
  \<^verbatim>\<open>bytes.NewReader(s)\<close>: \<^verbatim>\<open>Read\<close> answers \<open>(0, EOF)\<close> once the slice is used up,
  and copies as much as fits otherwise.
\<close>

primcorec bytes_NewReader :: "byte list \<Rightarrow> reader" where
  "rd_out (bytes_NewReader s) = (\<lambda>k. if s = [] then ([], Some EOF) else (take k s, None))"
| "rd_next (bytes_NewReader s) = (\<lambda>k. bytes_NewReader (drop k s))"

text \<open>
  A reader that plays a script: each call answers with the next entry; when the script
  is over it answers \<open>(0, EOF)\<close>.
\<close>

primcorec script_Reader :: "(byte list \<times> error option) list \<Rightarrow> reader" where
  "rd_out (script_Reader xs) = (\<lambda>k. case xs of [] \<Rightarrow> ([], Some EOF) | x # _ \<Rightarrow> x)"
| "rd_next (script_Reader xs) = (\<lambda>k. script_Reader (tl xs))"

text \<open>
  \<^verbatim>\<open>io.ReadAtLeast(r, buf, min)\<close> of the Go library: read into \<open>buf\<close> until at least
  \<open>min\<close> bytes are there or the reader reports an error. The loop may run forever on a
  reader that keeps answering \<open>(0, nil)\<close>, so not returning is the value \<open>None\<close>.
\<close>

partial_function (option) ReadAtLeast_loop ::
  "reader \<Rightarrow> byte list \<Rightarrow> nat \<Rightarrow> nat \<Rightarrow> error option
     \<Rightarrow> (nat \<times> error option \<times> byte list \<times> reader) option" where
  "ReadAtLeast_loop r buf mn n err =
     (if n < mn \<and> err = None then
        (case reader_Read r (drop n buf) of
           (bs, e, rest, r') \<Rightarrow>
             ReadAtLeast_loop r' (take n buf @ rest) mn (n + length bs) e)
      else Some (n, err, buf, r))"

declare ReadAtLeast_loop.simps [code]

definition ReadAtLeast ::
  "reader \<Rightarrow> byte list \<Rightarrow> nat \<Rightarrow> (nat \<times> error option \<times> byte list \<times> reader) option" where
  "ReadAtLeast r buf mn =
     (if length buf < mn then Some (0, Some ErrShortBuffer, buf, r)
      else
        (case ReadAtLeast_loop r buf mn 0 None of
           None \<Rightarrow> None
         | Some (n, err, buf', r') \<Rightarrow>
             Some (n,
                   (if mn \<le> n then None
                    else if 0 < n \<and> err = Some EOF then Some ErrUnexpectedEOF
                    else err),
                   buf', r')))"

section \<open>The store handle and its operations\<close>

text \<open>
  \<^verbatim>\<open>type Store struct\<close>: the collection handle (here: the collection's state), the
  configured chunk size (a Go \<^verbatim>\<open>int\<close>) and the \<^verbatim>\<open>sync.Once\<close> guarding index creation
  (here: whether it has fired).
\<close>

record Store =
  Collection :: collection
  ChunkSize :: int
  index :: bool

text \<open>
  \<^verbatim>\<open>EnsureIndex\<close>: \<^verbatim>\<open>store.index.Do\<close> runs the index creation on the first call only;
  a later call returns the zero value of \<^verbatim>\<open>err\<close>.
\<close>

definition EnsureIndex :: "Store \<Rightarrow> error option \<times> Store" where
  "EnsureIndex store =
     (if index store then (None, store)
      else
        (case CreateOne (Collection store) of
           (err, c) \<Rightarrow> (err, store\<lparr>Collection := c, index := True\<rparr>)))"

definition Remove :: "Store \<Rightarrow> string list \<Rightarrow> error option \<times> Store" where
  "Remove store blobIDs =
     (if length blobIDs = 0 then (None, store)
      else
        (case DeleteMany (Collection store) (\<lambda>d. ID d \<in> set blobIDs) of
           (err, c) \<Rightarrow> (err, store\<lparr>Collection := c\<rparr>)))"

text \<open>
  The \<^verbatim>\<open>if / else if\<close> chain of \<^verbatim>\<open>Write\<close> after \<^verbatim>\<open>io.ReadAtLeast\<close> returned \<open>n\<close> and
  \<open>err\<close>: keep the first \<open>n\<close> bytes and go on, leave the loop, return the error, or go
  on with the whole buffer.
\<close>

datatype verdict = Persist blobSegment | Break | Return error

definition after_read :: "blobSegment \<Rightarrow> nat \<Rightarrow> error option \<Rightarrow> verdict" where
  "after_read segment n err =
     (if err = Some ErrUnexpectedEOF then Persist (segment\<lparr>Data := take n (Data segment)\<rparr>)
      else if err = Some EOF then Break
      else (case err of Some e \<Rightarrow> Return e | None \<Rightarrow> Persist segment))"

text \<open>
  The \<^verbatim>\<open>for\<close> loop of \<^verbatim>\<open>Write\<close>. It ends with \<open>Inl e\<close> where the code returns \<open>e\<close>
  from inside the loop and with \<open>Inr segment\<close> where it breaks; a loop that never ends
  is \<open>None\<close>.
\<close>

partial_function (option) Write_loop ::
  "collection \<Rightarrow> reader \<Rightarrow> blobSegment \<Rightarrow> uint64
     \<Rightarrow> ((error + blobSegment) \<times> collection) option" where
  "Write_loop c data segment start =
     (case ReadAtLeast data (Data segment) (length (Data segment)) of
        None \<Rightarrow> None
      | Some (n, err, buf, data') \<Rightarrow>
          (case after_read (segment\<lparr>Data := buf\<rparr>) n err of
             Break \<Rightarrow> Some (Inr (segment\<lparr>Data := buf\<rparr>), c)
           | Return e \<Rightarrow> Some (Inl e, c)
           | Persist seg \<Rightarrow>
               (let seg' = seg\<lparr>Start := start, N := of_nat (length (Data seg))\<rparr>
                in case ReplaceOne c (ID seg') (Seq seg') seg' of
                     (Some e, c') \<Rightarrow> Some (Inl e, c')
                   | (None, c') \<Rightarrow>
                       Write_loop c' data' (seg'\<lparr>Seq := Seq seg' + 1\<rparr>)
                         (start + of_nat (length (Data seg))))))"

declare Write_loop.simps [code]

text \<open>
  \<^verbatim>\<open>Write\<close>. A non-positive chunk size selects the default. A nil \<open>data\<close> has no
  \<^verbatim>\<open>Read\<close> method to call: the first \<^verbatim>\<open>io.ReadAtLeast\<close> panics.
\<close>

definition Write :: "Store \<Rightarrow> string \<Rightarrow> reader option \<Rightarrow> (error option \<times> Store) option" where
  "Write store blobID data =
     (let chunkSize = (if ChunkSize store \<le> 0 then DefaultChunkSize else ChunkSize store);
          segment = \<lparr>ID = blobID, Seq = 0, Data = replicate (nat chunkSize) 0,
                     Start = 0, N = 0\<rparr>
      in case data of
           None \<Rightarrow> Some (Some NilDereference, store)
         | Some rd \<Rightarrow>
             (case Write_loop (Collection store) rd segment 0 of
                None \<Rightarrow> None
              | Some (Inl e, c) \<Rightarrow> Some (Some e, store\<lparr>Collection := c\<rparr>)
              | Some (Inr seg, c) \<Rightarrow>
                  (case DeleteMany c (\<lambda>d. ID d = ID seg \<and> Seq seg \<le> Seq d) of
                     (err, c') \<Rightarrow> Some (err, store\<lparr>Collection := c'\<rparr>))))"

text \<open>
  \<^verbatim>\<open>Read\<close>. The returned stream is the sequence of payloads the streaming goroutine
  writes into the pipe, one per cursor row; \<^verbatim>\<open>io.ReadAll\<close> on it gives their
  concatenation.
\<close>

definition Read :: "Store \<Rightarrow> string \<Rightarrow> (error + byte list list) \<times> Store" where
  "Read store blobID =
     (case Find (Collection store) blobID True of
        (Inl e, c) \<Rightarrow> (Inl e, store\<lparr>Collection := c\<rparr>)
      | (Inr cursor, c) \<Rightarrow>
          (case cursor of
             [] \<Rightarrow> (Inl ErrNotFound, store\<lparr>Collection := c\<rparr>)
           | segment # rest \<Rightarrow>
               (Inr (Data segment # map Data rest), store\<lparr>Collection := c\<rparr>)))"

definition io_ReadAll :: "byte list list \<Rightarrow> byte list" where
  "io_ReadAll stream = concat stream"

text \<open>\<^verbatim>\<open>Size\<close>: the \<^verbatim>\<open>int64\<close> result is given by its integer value.\<close>

definition Size :: "Store \<Rightarrow> string \<Rightarrow> (error + int) \<times> Store" where
  "Size store blobID =
     (case Find (Collection store) blobID False of
        (Inl e, c) \<Rightarrow> (Inl e, store\<lparr>Collection := c\<rparr>)
      | (Inr cursor, c) \<Rightarrow>
          (case cursor of
             [] \<Rightarrow> (Inl ErrNotFound, store\<lparr>Collection := c\<rparr>)
           | lst # rest \<Rightarrow> (Inr (sint (Start lst + N lst)), store\<lparr>Collection := c\<rparr>)))"

section \<open>What a write is expected to leave behind\<close>

text \<open>
  \<open>chunks C B\<close> cuts \<open>B\<close> into pieces of \<open>C\<close> bytes, the last one possibly shorter;
  \<open>emitted bid q s chs\<close> are the segment documents for the pieces \<open>chs\<close>, numbered from
  \<open>q\<close> and laid out from offset \<open>s\<close>. Both are used to state what the loop of \<open>Write\<close>
  persists; they are not part of the program.
\<close>

function chunks :: "nat \<Rightarrow> 'a list \<Rightarrow> 'a list list" where
  "chunks C B = (if C = 0 \<or> B = [] then [] else take C B # chunks C (drop C B))"
  by pat_completeness auto
termination
  by (relation "measure (\<lambda>(C, B). length B)") auto

declare chunks.simps [simp del]

fun emitted :: "string \<Rightarrow> uint64 \<Rightarrow> uint64 \<Rightarrow> byte list list \<Rightarrow> blobSegment list" where
  "emitted bid q s [] = []"
| "emitted bid q s (ch # chs) =
     \<lparr>ID = bid, Seq = q, Data = ch, Start = s, N = of_nat (length ch)\<rparr>
       # emitted bid (q + 1) (s + of_nat (length ch)) chs"

definition upsert_seg :: "blobSegment \<Rightarrow> blobSegment list \<Rightarrow> blobSegment list" where
  "upsert_seg x ds = upsert (\<lambda>d. ID d = ID x \<and> Seq d = Seq x) x ds"

text \<open>The chunk size \<open>Write\<close> works with: the configured one, or the default.\<close>

definition effective_chunk :: "Store \<Rightarrow> nat" where
  "effective_chunk store =
     nat (if ChunkSize store \<le> 0 then DefaultChunkSize else ChunkSize store)"

text \<open>The documents of a collection after a completed write of \<open>B\<close> in pieces of \<open>C\<close>.\<close>

definition written :: "nat \<Rightarrow> string \<Rightarrow> byte list \<Rightarrow> blobSegment list \<Rightarrow> blobSegment list" where
  "written C bid B ds =
     filter (\<lambda>d. \<not> (ID d = bid \<and> of_nat (length (chunks C B)) \<le> Seq d))
       (fold upsert_seg (emitted bid 0 0 (chunks C B)) ds)"

text \<open>The key uniqueness that the index on \<open>(blobId, seq)\<close> enforces.\<close>

definition unique_keys :: "blobSegment list \<Rightarrow> bool" where
  "unique_keys ds = distinct (map seg_key ds)"

text \<open>Whether the next round trip to the collection fails.\<close>

definition next_fails :: "collection \<Rightarrow> bool" where
  "next_fails c = fst (round_trip c)"

text \<open>
  The segments of one blob in read order, and the layout the data model asks of them:
  each \<open>start\<close> is the number of payload bytes before the segment
  (\<open>starts_are_sums\<close>), and from one segment to the next \<open>start\<close> grows by exactly
  \<open>n\<close> and strictly (\<open>steps_contiguous\<close>).
\<close>

definition blob_segments :: "blobSegment list \<Rightarrow> string \<Rightarrow> blobSegment list" where
  "blob_segments ds bid = sort_key Seq (filter (\<lambda>d. ID d = bid) ds)"

fun starts_are_sums :: "nat \<Rightarrow> blobSegment list \<Rightarrow> bool" where
  "starts_are_sums off [] = True"
| "starts_are_sums off (d # ds) =
     (unat (Start d) = off \<and> starts_are_sums (off + length (Data d)) ds)"

fun steps_contiguous :: "blobSegment list \<Rightarrow> bool" where
  "steps_contiguous (a # b # ds) =
     (Start b = Start a + N a \<and> Start a < Start b \<and> steps_contiguous (b # ds))"
| "steps_contiguous ds = True"

definition contiguous :: "blobSegment list \<Rightarrow> bool" where
  "contiguous segs =
     ((case segs of [] \<Rightarrow> True | d # _ \<Rightarrow> Start d = 0)
      \<and> starts_are_sums 0 segs \<and> steps_contiguous segs)"

text \<open>Concrete stores on which the theorems below are instantiated.\<close>

definition empty_collection :: collection where
  "empty_collection = \<lparr>docs = [], uniqueIndex = False, faults = [], trips = 0\<rparr>"

definition example_store :: Store where
  "example_store = \<lparr>Collection = empty_collection, ChunkSize = 2, index = False\<rparr>"

text \<open>A store that holds one blob of three bytes in two segments.\<close>

definition one_blob_store :: Store where
  "one_blob_store =
     example_store\<lparr>Collection := empty_collection
       \<lparr>docs := [\<lparr>ID = ''a'', Seq = 0, Data = [1, 2], Start = 0, N = 2\<rparr>,
                 \<lparr>ID = ''a'', Seq = 1, Data = [3], Start = 2, N = 1\<rparr>]\<rparr>\<rparr>"

text \<open>
  A reader whose first \<^verbatim>\<open>Read\<close> answers \<open>(0, io.ErrUnexpectedEOF)\<close>, as the body of
  an HTTP request does when the peer goes away before the announced length, and a store
  whose third round trip fails.
\<close>

definition failing_reader :: reader where
  "failing_reader = script_Reader [([], Some ErrUnexpectedEOF)]"

definition failing_store :: Store where
  "failing_store = example_store\<lparr>Collection := empty_collection\<lparr>faults := [False, False, True]\<rparr>\<rparr>"

section \<open>Facts about readers and the loop of Write\<close>

lemma reader_Read_bytes:
  "reader_Read (bytes_NewReader B) p =
     (take (length p) B, (if B = [] then Some EOF else None),
      take (length p) B @ drop (min (length B) (length p)) p, bytes_NewReader (drop (length p) B))"
  by (simp add: reader_Read_def Let_def)

lemma ReadAtLeast_bytes_empty:
  "buf \<noteq> [] \<Longrightarrow>
   ReadAtLeast (bytes_NewReader []) buf (length buf) = Some (0, Some EOF, buf, bytes_NewReader [])"
  by (simp add: ReadAtLeast_def ReadAtLeast_loop.simps reader_Read_bytes)

lemma ReadAtLeast_bytes_full:
  assumes "buf \<noteq> []" "length buf \<le> length B"
  shows "ReadAtLeast (bytes_NewReader B) buf (length buf) =
           Some (length buf, None, take (length buf) B, bytes_NewReader (drop (length buf) B))"
proof -
  from assms have "B \<noteq> []" by auto
  with assms show ?thesis
    by (simp add: ReadAtLeast_def ReadAtLeast_loop.simps reader_Read_bytes)
qed

lemma ReadAtLeast_bytes_short:
  assumes "B \<noteq> []" "length B < length buf"
  shows "ReadAtLeast (bytes_NewReader B) buf (length buf) =
           Some (length B, Some ErrUnexpectedEOF, B @ drop (length B) buf, bytes_NewReader [])"
  using assms
  apply (simp add: ReadAtLeast_def)
  apply (subst ReadAtLeast_loop.simps)
  apply (simp add: reader_Read_bytes)
  apply (subst ReadAtLeast_loop.simps)
  apply (simp add: reader_Read_bytes)
  apply (subst ReadAtLeast_loop.simps)
  apply (auto simp add: reader_Read_bytes)
  done

subsection \<open>A collection that answers\<close>

lemma round_trip_ok: "faults c = [] \<Longrightarrow> round_trip c = (False, c\<lparr>trips := Suc (trips c)\<rparr>)"
  by (simp add: round_trip_def)

lemma ReplaceOne_ok:
  "faults c = [] \<Longrightarrow>
   ReplaceOne c (ID x) (Seq x) x = (None, c\<lparr>docs := upsert_seg x (docs c), trips := Suc (trips c)\<rparr>)"
  by (simp add: ReplaceOne_def round_trip_ok upsert_seg_def)

lemma DeleteMany_ok:
  "faults c = [] \<Longrightarrow>
   DeleteMany c flt = (None, c\<lparr>docs := filter (\<lambda>d. \<not> flt d) (docs c), trips := Suc (trips c)\<rparr>)"
  by (simp add: DeleteMany_def round_trip_ok)

lemma chunks_Nil [simp]: "chunks C [] = []"
  by (simp add: chunks.simps)

lemma chunks_step:
  "0 < C \<Longrightarrow> B \<noteq> [] \<Longrightarrow> chunks C B = take C B # chunks C (drop C B)"
  by (subst chunks.simps) simp

lemma Write_loop_bytes:
  "faults c = [] \<Longrightarrow> Data segment \<noteq> [] \<Longrightarrow>
   \<exists>seg. Write_loop c (bytes_NewReader B) segment start =
       Some (Inr seg,
             c\<lparr>docs := fold upsert_seg
                         (emitted (ID segment) (Seq segment) start (chunks (length (Data segment)) B))
                         (docs c),
               trips := trips c + length (chunks (length (Data segment)) B)\<rparr>)
     \<and> ID seg = ID segment
     \<and> Seq seg = Seq segment + of_nat (length (chunks (length (Data segment)) B))"
proof (induction "length B" arbitrary: B c segment start rule: less_induct)
  case less
  let ?L = "length (Data segment)"
  have L: "0 < ?L" using less.prems by simp
  show ?case
  proof (cases "B = []")
    case True
    with less.prems show ?thesis
      by (subst Write_loop.simps) (simp add: ReadAtLeast_bytes_empty after_read_def)
  next
    case False
    let ?d = "take ?L B"
    let ?x = "\<lparr>ID = ID segment, Seq = Seq segment, Data = ?d, Start = start,
               N = of_nat (length ?d)\<rparr>"
    let ?c = "c\<lparr>docs := upsert_seg ?x (docs c), trips := Suc (trips c)\<rparr>"
    let ?seg = "?x\<lparr>Seq := Seq segment + 1\<rparr>"
    have d: "?d \<noteq> []" using False L by simp
    have step: "Write_loop c (bytes_NewReader B) segment start =
                Write_loop ?c (bytes_NewReader (drop ?L B)) ?seg (start + of_nat (length ?d))"
    proof (cases "?L \<le> length B")
      case True
      have x: "segment\<lparr>Data := take ?L B, Start := start, N := of_nat ?L\<rparr> = ?x"
        using True by (cases segment) simp
      show ?thesis
        apply (subst Write_loop.simps)
        using True less.prems ReplaceOne_ok [of c ?x]
        apply (simp add: ReadAtLeast_bytes_full after_read_def x)
        done
    next
      case f: False
      have x: "segment\<lparr>Data := B, Start := start, N := of_nat (length B)\<rparr> = ?x"
        using f by (cases segment) simp
      show ?thesis
        apply (subst Write_loop.simps)
        using f False less.prems ReplaceOne_ok [of c ?x]
        apply (simp add: ReadAtLeast_bytes_short after_read_def x)
        done
    qed
    have len: "length (drop ?L B) < length B" using False L by simp
    have ch: "chunks (length ?d) (drop ?L B) = chunks ?L (drop ?L B)"
      by (cases "?L \<le> length B") (simp_all add: min_def)
    from less.hyps [OF len, of ?c ?seg "start + of_nat (length ?d)"] d less.prems
    obtain seg where
      "Write_loop ?c (bytes_NewReader (drop ?L B)) ?seg (start + of_nat (length ?d)) =
         Some (Inr seg,
               ?c\<lparr>docs := fold upsert_seg
                         (emitted (ID segment) (Seq segment + 1) (start + of_nat (length ?d))
                            (chunks ?L (drop ?L B)))
                         (docs ?c),
               trips := trips ?c + length (chunks ?L (drop ?L B))\<rparr>)"
      "ID seg = ID segment"
      "Seq seg = Seq segment + 1 + of_nat (length (chunks ?L (drop ?L B)))"
      using ch by auto
    then show ?thesis
      using step chunks_step [OF L False] by (auto simp: algebra_simps)
  qed
qed

lemma effective_chunk_pos: "0 < effective_chunk st"
  by (simp add: effective_chunk_def DefaultChunkSize_def)

lemma Write_bytes:
  assumes "faults (Collection st) = []"
  shows "Write st bid (Some (bytes_NewReader B)) =
           Some (None,
                 st\<lparr>Collection := (Collection st)
                      \<lparr>docs := written (effective_chunk st) bid B (docs (Collection st)),
                       trips := Suc (trips (Collection st)
                                      + length (chunks (effective_chunk st) B))\<rparr>\<rparr>)"
proof -
  let ?C = "effective_chunk st"
  let ?seg0 = "\<lparr>ID = bid, Seq = 0, Data = replicate ?C (0::byte), Start = 0, N = 0\<rparr>"
  have "Data ?seg0 \<noteq> []" using effective_chunk_pos [of st] by simp
  from Write_loop_bytes [OF assms this, of B 0]
  obtain seg where loop:
    "Write_loop (Collection st) (bytes_NewReader B) ?seg0 0 =
       Some (Inr seg,
             (Collection st)\<lparr>docs := fold upsert_seg (emitted bid 0 0 (chunks ?C B))
                                       (docs (Collection st)),
                              trips := trips (Collection st) + length (chunks ?C B)\<rparr>)"
    and seg: "ID seg = bid" "Seq seg = of_nat (length (chunks ?C B))"
    by auto
  have eq: "(\<lambda>d. \<not> (ID d = bid \<and> word_of_nat (length (chunks ?C B)) \<le> Seq d))
          = (\<lambda>d. ID d = bid \<longrightarrow> \<not> word_of_nat (length (chunks ?C B)) \<le> Seq d)"
    by auto
  show ?thesis
    unfolding Write_def
    using loop seg assms
    by (simp add: effective_chunk_def [symmetric] Let_def DeleteMany_ok written_def eq)
qed

subsection \<open>Chunks and the segments emitted for them\<close>

lemma concat_chunks: "0 < C \<Longrightarrow> concat (chunks C B) = B"
proof (induction C B rule: chunks.induct)
  case (1 C B)
  then show ?case by (cases "B = []") (simp_all add: chunks_step)
qed

lemma chunks_bounds: "ch \<in> set (chunks C B) \<Longrightarrow> ch \<noteq> [] \<and> length ch \<le> C"
proof (induction C B rule: chunks.induct)
  case (1 C B)
  show ?case
  proof (cases "C = 0 \<or> B = []")
    case True
    with "1.prems" show ?thesis by (simp add: chunks.simps)
  next
    case False
    with "1.prems" have "ch = take C B \<or> ch \<in> set (chunks C (drop C B))"
      by (simp add: chunks_step)
    with False "1.IH" show ?thesis by auto
  qed
qed

lemma length_chunks_le: "length (chunks C B) \<le> length B"
proof (induction C B rule: chunks.induct)
  case (1 C B)
  show ?case
  proof (cases "C = 0 \<or> B = []")
    case True
    then show ?thesis by (auto simp add: chunks.simps)
  next
    case False
    with "1.IH" have "length (chunks C (drop C B)) \<le> length B - C" by simp
    moreover have "0 < C" "0 < length B" using False by auto
    ultimately have "Suc (length (chunks C (drop C B))) \<le> length B" by linarith
    then show ?thesis using False by (simp add: chunks_step)
  qed
qed

lemma chunks_eq_Nil: "0 < C \<Longrightarrow> chunks C B = [] \<longleftrightarrow> B = []"
  by (cases "B = []") (simp_all add: chunks_step)

lemma length_emitted [simp]: "length (emitted bid q s chs) = length chs"
  by (induction chs arbitrary: q s) simp_all

lemma map_Data_emitted [simp]: "map Data (emitted bid q s chs) = chs"
  by (induction chs arbitrary: q s) simp_all

lemma ID_emitted: "d \<in> set (emitted bid q s chs) \<Longrightarrow> ID d = bid"
  by (induction chs arbitrary: q s) auto

lemma map_Seq_emitted:
  "map Seq (emitted bid q s chs) = map (\<lambda>i. q + of_nat i) [0..<length chs]"
proof (induction chs arbitrary: q s)
  case Nil
  then show ?case by simp
next
  case (Cons ch chs)
  have "[0..<Suc (length chs)] = 0 # map Suc [0..<length chs]"
    by (simp add: upt_conv_Cons map_Suc_upt del: upt_Suc)
  then show ?case using Cons by (simp add: o_def algebra_simps del: upt_Suc)
qed

lemma emitted_eq_Nil [simp]: "emitted bid q s chs = [] \<longleftrightarrow> chs = []"
  by (cases chs) simp_all

lemma emitted_last:
  "chs \<noteq> [] \<Longrightarrow>
   Start (last (emitted bid q s chs)) + N (last (emitted bid q s chs))
     = s + of_nat (length (concat chs))"
proof (induction chs arbitrary: q s)
  case Nil
  then show ?case by simp
next
  case (Cons ch chs)
  then show ?case by (cases "chs = []") (simp_all add: algebra_simps)
qed

subsection \<open>Upserts under unique keys\<close>

lemma set_upsert_seg:
  "unique_keys ds \<Longrightarrow>
   set (upsert_seg x ds) = insert x {d \<in> set ds. seg_key d \<noteq> seg_key x}"
proof (induction ds)
  case Nil
  then show ?case by (simp add: upsert_seg_def)
next
  case (Cons d ds)
  then have IH: "set (upsert_seg x ds) = insert x {d \<in> set ds. seg_key d \<noteq> seg_key x}"
    and fresh: "seg_key d \<notin> seg_key ` set ds"
    by (simp_all add: unique_keys_def)
  show ?case
  proof (cases "seg_key d = seg_key x")
    case True
    then have "\<forall>e \<in> set ds. seg_key e \<noteq> seg_key x" using fresh by (metis imageI)
    with True show ?thesis by (auto simp: upsert_seg_def seg_key_def)
  next
    case False
    with IH show ?thesis by (auto simp: upsert_seg_def seg_key_def)
  qed
qed

lemma unique_keys_upsert_seg:
  "unique_keys ds \<Longrightarrow> unique_keys (upsert_seg x ds)"
proof (induction ds)
  case Nil
  then show ?case by (simp add: upsert_seg_def unique_keys_def)
next
  case (Cons d ds)
  then have u: "unique_keys ds" and fresh: "seg_key d \<notin> seg_key ` set ds"
    by (simp_all add: unique_keys_def)
  show ?case
  proof (cases "seg_key d = seg_key x")
    case True
    with Cons.prems show ?thesis by (auto simp: upsert_seg_def seg_key_def unique_keys_def)
  next
    case False
    have "seg_key d \<notin> seg_key ` set (upsert_seg x ds)"
      using fresh False by (auto simp: set_upsert_seg [OF u])
    moreover have "upsert_seg x (d # ds) = d # upsert_seg x ds"
      using False by (auto simp: upsert_seg_def seg_key_def)
    ultimately show ?thesis using Cons.IH [OF u] by (simp add: unique_keys_def)
  qed
qed

lemma fold_upsert_seg:
  "unique_keys ds \<Longrightarrow> distinct (map seg_key xs) \<Longrightarrow>
   unique_keys (fold upsert_seg xs ds) \<and>
   set (fold upsert_seg xs ds) = set xs \<union> {d \<in> set ds. seg_key d \<notin> seg_key ` set xs}"
proof (induction xs arbitrary: ds)
  case Nil
  then show ?case by simp
next
  case (Cons x xs)
  have u: "unique_keys (upsert_seg x ds)" by (rule unique_keys_upsert_seg [OF Cons.prems(1)])
  have dx: "distinct (map seg_key xs)" and fresh: "seg_key x \<notin> seg_key ` set xs"
    using Cons.prems(2) by simp_all
  from Cons.IH [OF u dx] fresh show ?case
    by (auto simp: set_upsert_seg [OF Cons.prems(1)])
qed

lemma unique_keys_filter: "unique_keys ds \<Longrightarrow> unique_keys (filter P ds)"
  by (simp add: unique_keys_def distinct_map_filter)



subsection \<open>The segments of a blob after a write\<close>

lemma unat_of_nat_64: "n < 2 ^ 64 \<Longrightarrow> unat (of_nat n :: uint64) = n"
  by (simp add: unat_of_nat)

lemma emitted_keys:
  assumes "length chs < 2 ^ 64"
  shows "sorted (map Seq (emitted bid 0 s chs))"
    and "distinct (map Seq (emitted bid 0 s chs))"
    and "distinct (map seg_key (emitted bid 0 s chs))"
    and "Seq ` set (emitted bid 0 s chs) = {q. q < of_nat (length chs)}"
proof -
  let ?k = "length chs"
  let ?em = "emitted bid 0 s chs"
  have seqs: "map Seq ?em = map (of_nat :: nat \<Rightarrow> uint64) [0..<?k]"
    by (simp add: map_Seq_emitted)
  have un: "unat (of_nat i :: uint64) = i" if "i < ?k" for i
    using that assms by (simp add: unat_of_nat_64)
  have inj: "inj_on (of_nat :: nat \<Rightarrow> uint64) {0..<?k}"
  proof (rule inj_onI)
    fix i j
    assume "i \<in> {0..<?k}" "j \<in> {0..<?k}" "(of_nat i :: uint64) = of_nat j"
    then have "i < ?k" "j < ?k" "unat (of_nat i :: uint64) = unat (of_nat j :: uint64)"
      by simp_all
    then show "i = j" by (simp add: un)
  qed
  show d: "distinct (map Seq ?em)"
    unfolding seqs by (simp add: distinct_map inj)
  have "sorted_wrt (\<lambda>i j. (of_nat i :: uint64) \<le> of_nat j) [0..<?k]"
    by (rule sorted_wrt_mono_rel [of _ "(<)"])
       (auto simp: word_le_nat_alt un)
  then show "sorted (map Seq ?em)"
    unfolding seqs by (simp add: sorted_wrt_map)
  have "map seg_key ?em = map (Pair bid) (map Seq ?em)"
    by (auto simp: seg_key_def ID_emitted)
  then show "distinct (map seg_key ?em)"
    using d by (simp add: distinct_map inj_on_def del: map_map)
  have "Seq ` set ?em = set (map Seq ?em)" by simp
  also have "\<dots> = of_nat ` {0..<?k}" unfolding seqs by simp
  also have "\<dots> = {q. q < of_nat ?k}"
  proof (rule set_eqI, rule iffI)
    fix q :: uint64
    assume "q \<in> of_nat ` {0..<?k}"
    then obtain i where "i < ?k" "q = of_nat i" by auto
    then show "q \<in> {q. q < of_nat ?k}"
      using assms by (simp add: word_less_nat_alt un unat_of_nat_64)
  next
    fix q :: uint64
    assume "q \<in> {q. q < of_nat ?k}"
    then have "unat q < ?k" using assms by (simp add: word_less_nat_alt unat_of_nat_64)
    moreover have "q = of_nat (unat q)" by simp
    ultimately show "q \<in> of_nat ` {0..<?k}" by (metis atLeastLessThan_iff imageI zero_le)
  qed
  finally show "Seq ` set ?em = {q. q < of_nat ?k}" .
qed

lemma sort_key_unique:
  assumes "sorted (map f ys)" "distinct (map f ys)" "distinct (map f xs)" "set xs = set ys"
  shows "sort_key f xs = ys"
proof -
  let ?S = "sort_key f xs"
  have dx: "distinct xs" and ix: "inj_on f (set xs)"
    using assms(3) by (simp_all add: distinct_map)
  have "distinct (map f ?S)" using dx ix by (simp add: distinct_map)
  moreover have "sorted (map f ?S)" by simp
  moreover have "set (map f ?S) = set (map f ys)" using assms(4) by simp
  ultimately have "map f ?S = map f ys"
    using assms(1,2) by (metis sorted_distinct_set_unique)
  moreover have "inj_on f (set ?S \<union> set ys)" using ix assms(4) by simp
  ultimately show ?thesis by (simp add: inj_on_map_eq_map)
qed

lemma segments_written:
  assumes u: "unique_keys ds" and C: "0 < C" and len: "length B < 2 ^ 64"
  shows "sort_key Seq (filter (\<lambda>d. ID d = bid) (written C bid B ds))
           = emitted bid 0 0 (chunks C B)"
proof -
  let ?chs = "chunks C B"
  let ?em = "emitted bid 0 0 ?chs"
  let ?F = "filter (\<lambda>d. ID d = bid) (written C bid B ds)"
  have k: "length ?chs < 2 ^ 64" using length_chunks_le [of C B] len by simp
  note keys = emitted_keys [OF k, of bid 0]
  from fold_upsert_seg [OF u keys(3)]
  have uf: "unique_keys (fold upsert_seg ?em ds)"
    and sf: "set (fold upsert_seg ?em ds) = set ?em \<union> {d \<in> set ds. seg_key d \<notin> seg_key ` set ?em}"
    by simp_all
  have "unique_keys ?F" unfolding written_def by (intro unique_keys_filter uf)
  then have "distinct (map (\<lambda>d. (bid, Seq d)) ?F)"
    unfolding unique_keys_def
    by (rule back_subst [of distinct]) (auto simp: seg_key_def)
  then have "distinct (map (Pair bid) (map Seq ?F))" by (simp add: o_def)
  then have dF: "distinct (map Seq ?F)" by (simp only: distinct_map)
  have "set ?F = set ?em"
  proof (rule set_eqI, rule iffI)
    fix d assume "d \<in> set ?F"
    then have id: "ID d = bid" and nle: "\<not> of_nat (length ?chs) \<le> Seq d"
      and in_fold: "d \<in> set (fold upsert_seg ?em ds)"
      by (simp_all add: written_def)
    from nle have lt: "Seq d < of_nat (length ?chs)" by (simp only: not_le)
    from in_fold have mem: "d \<in> set ?em \<or> (d \<in> set ds \<and> seg_key d \<notin> seg_key ` set ?em)"
      unfolding sf by blast
    from lt have "Seq d \<in> {q. q < of_nat (length ?chs)}" by (rule CollectI)
    then have "Seq d \<in> Seq ` set ?em" by (simp only: keys(4))
    then obtain e where e: "e \<in> set ?em" "Seq e = Seq d" by (auto simp only: image_iff)
    then have "seg_key e = seg_key d" using id by (simp add: seg_key_def ID_emitted)
    with e mem show "d \<in> set ?em" by (metis imageI)
  next
    fix d assume d: "d \<in> set ?em"
    then have "Seq d \<in> Seq ` set ?em" by (rule imageI)
    then have "Seq d \<in> {q. q < of_nat (length ?chs)}" by (simp only: keys(4))
    then have "Seq d < of_nat (length ?chs)" by (rule CollectD)
    then have "\<not> of_nat (length ?chs) \<le> Seq d" by (simp only: not_le)
    moreover have "d \<in> set (fold upsert_seg ?em ds)" unfolding sf using d by simp
    moreover have "ID d = bid" using d by (rule ID_emitted)
    ultimately show "d \<in> set ?F" by (simp add: written_def)
  qed
  with keys(1,2) dF show ?thesis by (intro sort_key_unique)
qed


section \<open>Facts about the operations on a store that answers\<close>

lemma Find_ok:
  "faults c = [] \<Longrightarrow>
   Find c bid asc =
     (Inr (if asc then blob_segments (docs c) bid else rev (blob_segments (docs c) bid)),
      c\<lparr>trips := Suc (trips c)\<rparr>)"
  by (simp add: Find_def round_trip_ok blob_segments_def Let_def)

lemma Read_ok:
  "faults (Collection st) = [] \<Longrightarrow>
   Read st bid =
     (if blob_segments (docs (Collection st)) bid = [] then Inl ErrNotFound
      else Inr (map Data (blob_segments (docs (Collection st)) bid)),
      st\<lparr>Collection := (Collection st)\<lparr>trips := Suc (trips (Collection st))\<rparr>\<rparr>)"
  by (simp add: Read_def Find_ok split: list.split)

lemma Size_ok:
  assumes "faults (Collection st) = []"
  shows "Size st bid =
     (if blob_segments (docs (Collection st)) bid = [] then Inl ErrNotFound
      else Inr (sint (Start (last (blob_segments (docs (Collection st)) bid))
                      + N (last (blob_segments (docs (Collection st)) bid)))),
      st\<lparr>Collection := (Collection st)\<lparr>trips := Suc (trips (Collection st))\<rparr>\<rparr>)"
proof -
  have "hd (rev xs) = last xs" if "xs \<noteq> []" for xs :: "blobSegment list"
    using that by (simp add: hd_rev)
  then show ?thesis
    by (cases "rev (blob_segments (docs (Collection st)) bid)")
       (auto simp add: Size_def Find_ok [OF assms] split: list.split)
qed

lemma unique_keys_written: "unique_keys ds \<Longrightarrow> unique_keys (written C bid B ds)"
proof -
  have "unique_keys ds \<Longrightarrow> unique_keys (fold upsert_seg xs ds)" for xs
    by (induction xs arbitrary: ds) (simp_all add: unique_keys_upsert_seg)
  then show "unique_keys ds \<Longrightarrow> unique_keys (written C bid B ds)"
    by (simp add: written_def unique_keys_filter)
qed

text \<open>What a completed write of a byte sequence leaves in the store.\<close>

lemma Write_bytes_result:
  assumes "faults (Collection st) = []" "unique_keys (docs (Collection st))"
    and "length B < 2 ^ 64"
  obtains st' where
    "Write st bid (Some (bytes_NewReader B)) = Some (None, st')"
    "faults (Collection st') = []"
    "unique_keys (docs (Collection st'))"
    "ChunkSize st' = ChunkSize st"
    "docs (Collection st') = written (effective_chunk st) bid B (docs (Collection st))"
    "blob_segments (docs (Collection st')) bid = emitted bid 0 0 (chunks (effective_chunk st) B)"
    "trips (Collection st') = Suc (trips (Collection st) + length (chunks (effective_chunk st) B))"
proof -
  let ?c = "Collection st"
  let ?st' = "st\<lparr>Collection := ?c
                \<lparr>docs := written (effective_chunk st) bid B (docs ?c),
                 trips := Suc (trips ?c + length (chunks (effective_chunk st) B))\<rparr>\<rparr>"
  have "Write st bid (Some (bytes_NewReader B)) = Some (None, ?st')"
    by (rule Write_bytes [OF assms(1)])
  moreover have "faults (Collection ?st') = []" using assms(1) by simp
  moreover have "unique_keys (docs (Collection ?st'))"
    using assms(2) by (simp add: unique_keys_written)
  moreover have "ChunkSize ?st' = ChunkSize st" by simp
  moreover have "docs (Collection ?st') = written (effective_chunk st) bid B (docs ?c)" by simp
  moreover have "blob_segments (docs (Collection ?st')) bid
                   = emitted bid 0 0 (chunks (effective_chunk st) B)"
    using segments_written [OF assms(2) effective_chunk_pos assms(3)]
    by (simp add: blob_segments_def)
  moreover have "trips (Collection ?st')
                   = Suc (trips ?c + length (chunks (effective_chunk st) B))"
    by simp
  ultimately show thesis by (rule that)
qed

lemma length_bound_63: "length (B::byte list) < 2 ^ 63 \<Longrightarrow> length B < 2 ^ 64"
  by (erule less_trans) simp

lemma written_empty: "written C bid [] ds = filter (\<lambda>d. ID d \<noteq> bid) ds"
  by (simp add: written_def)

lemma blob_segments_filter_other [simp]:
  "blob_segments (filter (\<lambda>d. ID d \<noteq> bid) ds) bid = []"
  by (simp add: blob_segments_def)

lemma Write_nil_panics: "Write st bid None = Some (Some NilDereference, st)"
  by (simp add: Write_def Let_def)

lemma sint_of_nat_63: "n < 2 ^ 63 \<Longrightarrow> sint (of_nat n :: uint64) = int n"
proof -
  assume "n < 2 ^ 63"
  then have "int n < 2 ^ 63" by (metis of_nat_less_iff of_nat_numeral of_nat_power)
  then show ?thesis
    by (simp add: signed_of_nat signed_take_bit_int_eq_self)
qed

text \<open>Reading and sizing a blob right after a completed write of a non-empty \<open>B\<close>.\<close>

lemma after_write_read_size:
  assumes f: "faults (Collection st') = []"
    and segs: "blob_segments (docs (Collection st')) bid = emitted bid 0 0 (chunks C B)"
    and C: "0 < C" and ne: "B \<noteq> []" and len: "length B < 2 ^ 63"
  shows "\<exists>stream st''. Read st' bid = (Inr stream, st'') \<and> io_ReadAll stream = B"
    and "\<exists>st''. Size st' bid = (Inr (int (length B)), st'')"
proof -
  have chs: "chunks C B \<noteq> []" using ne C by (simp add: chunks_eq_Nil)
  have "Read st' bid =
          (Inr (chunks C B),
           st'\<lparr>Collection := (Collection st')\<lparr>trips := Suc (trips (Collection st'))\<rparr>\<rparr>)"
    using chs by (simp add: Read_ok [OF f] segs)
  moreover have "io_ReadAll (chunks C B) = B"
    by (simp add: io_ReadAll_def concat_chunks C)
  ultimately show "\<exists>stream st''. Read st' bid = (Inr stream, st'') \<and> io_ReadAll stream = B"
    by blast
  have "Start (last (emitted bid 0 0 (chunks C B))) + N (last (emitted bid 0 0 (chunks C B)))
          = of_nat (length B)"
    using emitted_last [OF chs, of bid 0 0] by (simp add: concat_chunks C)
  then have "Size st' bid =
          (Inr (int (length B)),
           st'\<lparr>Collection := (Collection st')\<lparr>trips := Suc (trips (Collection st'))\<rparr>\<rparr>)"
    using chs by (simp add: Size_ok [OF f] segs sint_of_nat_63 [OF len])
  then show "\<exists>st''. Size st' bid = (Inr (int (length B)), st'')" by blast
qed

lemma written_below:
  "d \<in> set (written C bid B ds) \<Longrightarrow> ID d = bid \<Longrightarrow> Seq d < of_nat (length (chunks C B))"
  by (simp add: written_def not_le)

subsection \<open>The segment with the highest sequence number\<close>

lemma sorted_le_last: "sorted xs \<Longrightarrow> x \<in> set xs \<Longrightarrow> x \<le> last xs"
  by (induction xs) auto

lemma blob_segments_last:
  assumes "blob_segments ds bid \<noteq> []"
  shows "last (blob_segments ds bid) \<in> set ds"
    and "ID (last (blob_segments ds bid)) = bid"
    and "\<forall>d \<in> set ds. ID d = bid \<longrightarrow> Seq d \<le> Seq (last (blob_segments ds bid))"
proof -
  let ?S = "blob_segments ds bid"
  have set: "set ?S = {d \<in> set ds. ID d = bid}" by (auto simp: blob_segments_def)
  have "last ?S \<in> set ?S" using assms by (rule last_in_set)
  then show "last ?S \<in> set ds" "ID (last ?S) = bid" unfolding set by simp_all
  have srt: "sorted (map Seq ?S)" by (simp add: blob_segments_def)
  have lst: "last (map Seq ?S) = Seq (last ?S)" using assms by (simp add: last_map)
  show "\<forall>d \<in> set ds. ID d = bid \<longrightarrow> Seq d \<le> Seq (last ?S)"
  proof (intro ballI impI)
    fix d assume "d \<in> set ds" "ID d = bid"
    then have "Seq d \<in> set (map Seq ?S)" using set by auto
    from sorted_le_last [OF srt this] show "Seq d \<le> Seq (last ?S)" by (simp only: lst)
  qed
qed

lemma insort_key_map_Data:
  "insort_key Seq (d\<lparr>Data := f d\<rparr>) (map (\<lambda>d. d\<lparr>Data := f d\<rparr>) ys)
     = map (\<lambda>d. d\<lparr>Data := f d\<rparr>) (insort_key Seq d ys)"
  by (induction ys) simp_all

lemma sort_key_map_Data:
  "sort_key Seq (map (\<lambda>d. d\<lparr>Data := f d\<rparr>) xs) = map (\<lambda>d. d\<lparr>Data := f d\<rparr>) (sort_key Seq xs)"
  by (induction xs) (simp_all add: insort_key_map_Data)

lemma blob_segments_map_Data:
  "blob_segments (map (\<lambda>d. d\<lparr>Data := f d\<rparr>) ds) bid
     = map (\<lambda>d. d\<lparr>Data := f d\<rparr>) (blob_segments ds bid)"
  by (simp add: blob_segments_def filter_map o_def sort_key_map_Data)

lemma Size_ignores_payloads:
  "fst (Size (st\<lparr>Collection := (Collection st)
                \<lparr>docs := map (\<lambda>d. d\<lparr>Data := f d\<rparr>) (docs (Collection st))\<rparr>\<rparr>) bid)
     = fst (Size st bid)"
proof -
  let ?g = "\<lambda>d. d\<lparr>Data := f d\<rparr>"
  let ?S = "sort_key Seq (filter (\<lambda>d. ID d = bid) (docs (Collection st)))"
  have "sort_key Seq (filter (\<lambda>d. ID d = bid) (map ?g (docs (Collection st)))) = map ?g ?S"
    using blob_segments_map_Data [of f "docs (Collection st)" bid]
    by (simp add: blob_segments_def)
  then show ?thesis
    by (cases "rev ?S")
       (auto simp add: Size_def Find_def round_trip_def Let_def rev_map
             split: list.split bool.split)
qed

lemma example_store_ok:
  "faults (Collection example_store) = []" "unique_keys (docs (Collection example_store))"
  by (simp_all add: example_store_def empty_collection_def unique_keys_def)

subsection \<open>Chunk lengths\<close>

lemma chunk_lengths:
  "0 < C \<Longrightarrow> r < C \<Longrightarrow> length B = k * C + r \<Longrightarrow>
   map length (chunks C B) = replicate k C @ (if r = 0 then [] else [r])"
proof (induction k arbitrary: B)
  case 0
  then show ?case by (cases "B = []") (auto simp add: chunks_step)
next
  case (Suc k)
  then have ne: "B \<noteq> []" and rest: "length (drop C B) = k * C + r" by auto
  have "length (take C B) = C" using Suc.prems by simp
  with Suc.IH [OF Suc.prems(1,2) rest] show ?case
    by (simp add: chunks_step [OF Suc.prems(1) ne])
qed

lemma effective_chunk_eq: "0 < C \<Longrightarrow> ChunkSize st = int C \<Longrightarrow> effective_chunk st = C"
  by (simp add: effective_chunk_def)

lemma map_N_emitted:
  "map N (emitted bid q s chs) = map (\<lambda>ch. of_nat (length ch)) chs"
  by (induction chs arbitrary: q s) simp_all

subsection \<open>Results of the operations on any collection\<close>

lemma round_trip_cases:
  "round_trip c = (next_fails c, snd (round_trip c))"
  by (simp add: next_fails_def)

lemma next_fails_reliable: "faults c = [] \<Longrightarrow> \<not> next_fails c"
  by (simp add: next_fails_def round_trip_def)

lemma docs_round_trip [simp]: "docs (snd (round_trip c)) = docs c"
  by (simp add: round_trip_def split: list.split)

lemma trips_round_trip [simp]: "trips (snd (round_trip c)) = Suc (trips c)"
  by (simp add: round_trip_def split: list.split)

lemma blob_segments_Nil: "blob_segments ds bid = [] \<longleftrightarrow> (\<forall>d \<in> set ds. ID d \<noteq> bid)"
proof -
  have "blob_segments ds bid = [] \<longleftrightarrow> set (blob_segments ds bid) = {}" by simp
  also have "\<dots> \<longleftrightarrow> (\<forall>d \<in> set ds. ID d \<noteq> bid)" by (auto simp: blob_segments_def)
  finally show ?thesis .
qed

lemma Read_result:
  "fst (Read st bid) =
     (if next_fails (Collection st) then Inl ErrStore
      else if blob_segments (docs (Collection st)) bid = [] then Inl ErrNotFound
      else Inr (map Data (blob_segments (docs (Collection st)) bid)))"
  by (subst Read_def, subst Find_def, subst round_trip_cases)
     (simp add: blob_segments_def Let_def split: list.split)

lemma Size_result:
  "fst (Size st bid) =
     (if next_fails (Collection st) then Inl ErrStore
      else if blob_segments (docs (Collection st)) bid = [] then Inl ErrNotFound
      else Inr (sint (Start (last (blob_segments (docs (Collection st)) bid))
                      + N (last (blob_segments (docs (Collection st)) bid)))))"
proof -
  have "hd (rev xs) = last xs" if "xs \<noteq> []" for xs :: "blobSegment list"
    using that by (simp add: hd_rev)
  then show ?thesis
    by (subst Size_def, subst Find_def, subst round_trip_cases)
       (cases "rev (blob_segments (docs (Collection st)) bid)",
        auto simp add: blob_segments_def Let_def split: list.split)
qed

lemma Remove_result:
  "ids \<noteq> [] \<Longrightarrow> \<not> next_fails (Collection st) \<Longrightarrow>
   Remove st ids =
     (None, st\<lparr>Collection := (snd (round_trip (Collection st)))
                 \<lparr>docs := filter (\<lambda>d. ID d \<notin> set ids) (docs (Collection st))\<rparr>\<rparr>)"
  by (subst Remove_def, subst DeleteMany_def, subst round_trip_cases) simp

lemma one_blob_store_ok:
  "faults (Collection one_blob_store) = []" "unique_keys (docs (Collection one_blob_store))"
  by (simp_all add: one_blob_store_def example_store_def empty_collection_def unique_keys_def
        seg_key_def)

subsection \<open>Layout of the emitted segments\<close>







lemma docs_after_Read [simp]: "docs (Collection (snd (Read st bid))) = docs (Collection st)"
  by (subst Read_def, subst Find_def, subst round_trip_cases)
     (simp add: Let_def split: list.split bool.split)

lemma docs_after_Size [simp]: "docs (Collection (snd (Size st bid))) = docs (Collection st)"
  by (subst Size_def, subst Find_def, subst round_trip_cases)
     (simp add: Let_def split: list.split bool.split)

lemma docs_after_EnsureIndex [simp]:
  "docs (Collection (snd (EnsureIndex st))) = docs (Collection st)"
  by (subst EnsureIndex_def, subst CreateOne_def, subst round_trip_cases)
     (simp split: bool.split)

lemma contiguous_Nil [simp]: "contiguous []"
  by (simp add: contiguous_def)

subsection \<open>A buffer of length zero\<close>

lemma ReadAtLeast_empty_buffer: "ReadAtLeast r [] 0 = Some (0, None, [], r)"
  by (simp add: ReadAtLeast_def ReadAtLeast_loop.simps)

lemma Write_loop_empty_buffer_never_returns:
  assumes "Write_loop c r segment start = Some y"
  shows "\<not> (faults c = [] \<and> Data segment = [])"
proof (rule Write_loop.raw_induct
         [where P = "\<lambda>c r segment start y. \<not> (faults c = [] \<and> Data segment = [])",
          OF _ assms], goal_cases)
  case (1 loop c r segment start y)
  show ?case
  proof
    assume a: "faults c = [] \<and> Data segment = []"
    let ?seg = "segment\<lparr>Start := start, N := 0\<rparr>"
    have x: "segment\<lparr>Data := [], Start := start, N := 0\<rparr> = ?seg"
      using a by (cases segment) simp
    from "1"(2) a
    have "loop (c\<lparr>docs := upsert_seg ?seg (docs c), trips := Suc (trips c)\<rparr>) r
            (?seg\<lparr>Seq := Seq segment + 1\<rparr>) start = Some y"
      using ReplaceOne_ok [of c ?seg]
      by (simp add: ReadAtLeast_empty_buffer after_read_def x Let_def)
    from "1"(1) [OF this] a show False by simp
  qed
qed

lemma emitted_fields:
  "d \<in> set (emitted bid q s chs) \<Longrightarrow> Data d \<in> set chs \<and> N d = of_nat (length (Data d))"
  by (induction chs arbitrary: q s) auto

section \<open>Round trip\<close>

text \<open>
  Claim C1, as the code has it: for every non-empty byte sequence \<open>B\<close> (shorter than
  \<open>2^63\<close> bytes, the most a Go slice holds) and every positive chunk size \<open>C\<close>,
  on a collection that answers and has unique \<open>(blobId, seq)\<close> keys, \<open>Write\<close> of
  \<open>B\<close> followed by \<open>Read\<close> of the same id gives a stream that drains to exactly
  \<open>B\<close>.
\<close>

theorem write_read_roundtrip:
  assumes "0 < C" "ChunkSize st = int C"
    and "faults (Collection st) = []" "unique_keys (docs (Collection st))"
    and "B \<noteq> []" "length B < 2 ^ 63"
  shows "\<exists>st' stream st''.
           Write st bid (Some (bytes_NewReader B)) = Some (None, st')
         \<and> Read st' bid = (Inr stream, st'')
         \<and> io_ReadAll stream = B"
proof -
  from Write_bytes_result [OF assms(3,4) length_bound_63 [OF assms(6)], of bid]
  obtain st' where w: "Write st bid (Some (bytes_NewReader B)) = Some (None, st')"
    and f: "faults (Collection st') = []"
    and segs: "blob_segments (docs (Collection st')) bid
                 = emitted bid 0 0 (chunks (effective_chunk st) B)"
    by blast
  have ne: "chunks (effective_chunk st) B \<noteq> []"
    using assms(5) by (simp add: chunks_eq_Nil effective_chunk_pos)
  have "Read st' bid =
          (Inr (chunks (effective_chunk st) B),
           st'\<lparr>Collection := (Collection st')\<lparr>trips := Suc (trips (Collection st'))\<rparr>\<rparr>)"
    using ne by (simp add: Read_ok [OF f] segs)
  moreover have "io_ReadAll (chunks (effective_chunk st) B) = B"
    by (simp add: io_ReadAll_def concat_chunks effective_chunk_pos)
  ultimately show ?thesis using w by blast
qed

text \<open>The round trip on a three-byte blob written in chunks of two bytes.\<close>

theorem write_read_roundtrip_witness:
  "0 < (2::nat) \<and> ChunkSize example_store = int 2
   \<and> faults (Collection example_store) = [] \<and> unique_keys (docs (Collection example_store))
   \<and> [1, 2, 3 :: byte] \<noteq> [] \<and> length [1, 2, 3 :: byte] < 2 ^ 63
   \<and> (\<exists>st' stream st''.
           Write example_store ''a'' (Some (bytes_NewReader [1, 2, 3])) = Some (None, st')
         \<and> Read st' ''a'' = (Inr stream, st'')
         \<and> io_ReadAll stream = [1, 2, 3])"
proof -
  have h: "0 < (2::nat)" "ChunkSize example_store = int 2"
    "faults (Collection example_store) = []" "unique_keys (docs (Collection example_store))"
    "[1, 2, 3 :: byte] \<noteq> []" "length [1, 2, 3 :: byte] < 2 ^ 63"
    by (simp_all add: example_store_def empty_collection_def unique_keys_def)
  from write_read_roundtrip [OF h, of "''a''"] h show ?thesis by blast
qed

text \<open>
  For the empty sequence the round trip fails: the write succeeds and leaves no segment,
  so the read that follows reports not-found instead of an empty stream.
\<close>

theorem empty_write_then_read_not_found:
  "Write example_store ''a'' (Some (bytes_NewReader [])) =
     Some (None, example_store\<lparr>Collection := empty_collection\<lparr>trips := 1\<rparr>\<rparr>)
   \<and> fst (Read (example_store\<lparr>Collection := empty_collection\<lparr>trips := 1\<rparr>\<rparr>) ''a'')
       = Inl ErrNotFound"
proof -
  have f: "faults (Collection example_store) = []"
    by (simp add: example_store_def empty_collection_def)
  have "Write example_store ''a'' (Some (bytes_NewReader [])) =
     Some (None, example_store\<lparr>Collection := empty_collection\<lparr>trips := 1\<rparr>\<rparr>)"
    by (simp add: Write_bytes [OF f] written_def)
       (simp add: example_store_def empty_collection_def)
  moreover have "fst (Read (example_store\<lparr>Collection := empty_collection\<lparr>trips := 1\<rparr>\<rparr>) ''a'')
       = Inl ErrNotFound"
    by (simp add: Read_ok empty_collection_def blob_segments_def)
  ultimately show ?thesis by simp
qed

section \<open>Writing an empty stream\<close>

text \<open>
  Claim C2, as the code has it: \<open>Write\<close> of an entirely empty (non-nil) stream on a
  collection that answers succeeds, persists no segment and deletes every segment the blob
  had, so that afterwards \<open>Read\<close> and \<open>Size\<close> report not-found, as for a blob that
  was never written.
\<close>

theorem empty_write_persists_nothing:
  assumes "faults (Collection st) = []"
  shows "\<exists>st'. Write st bid (Some (bytes_NewReader [])) = Some (None, st')
           \<and> docs (Collection st') = filter (\<lambda>d. ID d \<noteq> bid) (docs (Collection st))
           \<and> fst (Read st' bid) = Inl ErrNotFound
           \<and> fst (Size st' bid) = Inl ErrNotFound"
proof -
  let ?c = "Collection st"
  let ?st' = "st\<lparr>Collection := ?c\<lparr>docs := filter (\<lambda>d. ID d \<noteq> bid) (docs ?c),
                                     trips := Suc (trips ?c)\<rparr>\<rparr>"
  have w: "Write st bid (Some (bytes_NewReader [])) = Some (None, ?st')"
    by (simp add: Write_bytes [OF assms] written_empty)
  have f: "faults (Collection ?st') = []" using assms by simp
  have "fst (Read ?st' bid) = Inl ErrNotFound" by (simp add: Read_ok [OF f])
  moreover have "fst (Size ?st' bid) = Inl ErrNotFound" by (simp add: Size_ok [OF f])
  moreover have "docs (Collection ?st') = filter (\<lambda>d. ID d \<noteq> bid) (docs ?c)" by simp
  ultimately show ?thesis using w by blast
qed

text \<open>An empty write over the store that holds the three-byte blob.\<close>

theorem empty_write_persists_nothing_witness:
  "faults (Collection one_blob_store) = []
   \<and> (\<exists>st'. Write one_blob_store ''a'' (Some (bytes_NewReader [])) = Some (None, st')
           \<and> docs (Collection st') = filter (\<lambda>d. ID d \<noteq> ''a'') (docs (Collection one_blob_store))
           \<and> fst (Read st' ''a'') = Inl ErrNotFound
           \<and> fst (Size st' ''a'') = Inl ErrNotFound)"
proof -
  have h: "faults (Collection one_blob_store) = []"
    by (simp add: one_blob_store_def example_store_def empty_collection_def)
  from empty_write_persists_nothing [OF h, of "''a''"] h show ?thesis by blast
qed

text \<open>
  No segment with \<open>n = 0\<close> is persisted: after an empty write over an existing blob
  the collection holds no document at all and the blob cannot be sized.
\<close>

theorem empty_write_leaves_no_segment:
  "Write one_blob_store ''a'' (Some (bytes_NewReader [])) =
     Some (None, example_store\<lparr>Collection := empty_collection\<lparr>trips := 1\<rparr>\<rparr>)
   \<and> docs (Collection (example_store\<lparr>Collection := empty_collection\<lparr>trips := 1\<rparr>\<rparr>)) = []
   \<and> fst (Size (example_store\<lparr>Collection := empty_collection\<lparr>trips := 1\<rparr>\<rparr>) ''a'')
       = Inl ErrNotFound"
proof -
  have f: "faults (Collection one_blob_store) = []"
    by (simp add: one_blob_store_def example_store_def empty_collection_def)
  have "Write one_blob_store ''a'' (Some (bytes_NewReader [])) =
     Some (None, example_store\<lparr>Collection := empty_collection\<lparr>trips := 1\<rparr>\<rparr>)"
    by (simp add: Write_bytes [OF f] written_empty)
       (simp add: one_blob_store_def example_store_def empty_collection_def)
  moreover have "fst (Size (example_store\<lparr>Collection := empty_collection\<lparr>trips := 1\<rparr>\<rparr>) ''a'')
       = Inl ErrNotFound"
    by (simp add: Size_ok empty_collection_def blob_segments_def)
  ultimately show ?thesis by (simp add: empty_collection_def)
qed

section \<open>Truncation\<close>

text \<open>
  Claim C3, as the code has it: writing \<open>B1\<close> and then a non-empty \<open>B2\<close> (shorter
  than \<open>2^63\<close> bytes; in particular one shorter than \<open>B1\<close>) to the same id, on a
  collection that answers and has unique keys, leaves exactly the segments of \<open>B2\<close>:
  the ascending query returns the segments emitted for \<open>B2\<close>, no document of the blob
  has a \<open>seq\<close> at or beyond their number, \<open>Read\<close> drains to exactly \<open>B2\<close> and
  \<open>Size\<close> is the length of \<open>B2\<close>.
\<close>

theorem overwrite_truncates:
  assumes "faults (Collection st) = []" "unique_keys (docs (Collection st))"
    and "B2 \<noteq> []" "length B2 < 2 ^ 63"
  shows "\<exists>st1 st2 c2 stream st3 st4.
           Write st bid (Some (bytes_NewReader B1)) = Some (None, st1)
         \<and> Write st1 bid (Some (bytes_NewReader B2)) = Some (None, st2)
         \<and> Find (Collection st2) bid True
             = (Inr (emitted bid 0 0 (chunks (effective_chunk st) B2)), c2)
         \<and> (\<forall>d \<in> set (docs (Collection st2)).
               ID d = bid \<longrightarrow> Seq d < of_nat (length (chunks (effective_chunk st) B2)))
         \<and> Read st2 bid = (Inr stream, st3) \<and> io_ReadAll stream = B2
         \<and> Size st2 bid = (Inr (int (length B2)), st4)"
proof -
  let ?C = "effective_chunk st"
  let ?c = "Collection st"
  let ?st1 = "st\<lparr>Collection := ?c\<lparr>docs := written ?C bid B1 (docs ?c),
                                     trips := Suc (trips ?c + length (chunks ?C B1))\<rparr>\<rparr>"
  have w1: "Write st bid (Some (bytes_NewReader B1)) = Some (None, ?st1)"
    by (rule Write_bytes [OF assms(1)])
  have f1: "faults (Collection ?st1) = []" using assms(1) by simp
  have u1: "unique_keys (docs (Collection ?st1))"
    using assms(2) by (simp add: unique_keys_written)
  have C1: "effective_chunk ?st1 = ?C" by (simp add: effective_chunk_def)
  from Write_bytes_result [OF f1 u1 length_bound_63 [OF assms(4)], of bid]
  obtain st2 where w2: "Write ?st1 bid (Some (bytes_NewReader B2)) = Some (None, st2)"
    and f2: "faults (Collection st2) = []"
    and d2: "docs (Collection st2) = written ?C bid B2 (docs (Collection ?st1))"
    and s2: "blob_segments (docs (Collection st2)) bid = emitted bid 0 0 (chunks ?C B2)"
    unfolding C1 by blast
  have find: "Find (Collection st2) bid True
                = (Inr (emitted bid 0 0 (chunks ?C B2)),
                   (Collection st2)\<lparr>trips := Suc (trips (Collection st2))\<rparr>)"
    by (simp add: Find_ok [OF f2] s2)
  have below: "\<forall>d \<in> set (docs (Collection st2)).
                 ID d = bid \<longrightarrow> Seq d < of_nat (length (chunks ?C B2))"
    unfolding d2 by (blast intro: written_below)
  from after_write_read_size [OF f2 s2 effective_chunk_pos assms(3,4)]
  obtain stream st3 st4 where "Read st2 bid = (Inr stream, st3)" "io_ReadAll stream = B2"
    "Size st2 bid = (Inr (int (length B2)), st4)"
    by blast
  with w1 w2 find below show ?thesis by blast
qed

text \<open>Three bytes overwritten by one byte, in chunks of two.\<close>

theorem overwrite_truncates_witness:
  "faults (Collection example_store) = [] \<and> unique_keys (docs (Collection example_store))
   \<and> [4 :: byte] \<noteq> [] \<and> length [4 :: byte] < 2 ^ 63
   \<and> (\<exists>st1 st2 c2 stream st3 st4.
           Write example_store ''a'' (Some (bytes_NewReader [1, 2, 3])) = Some (None, st1)
         \<and> Write st1 ''a'' (Some (bytes_NewReader [4])) = Some (None, st2)
         \<and> Find (Collection st2) ''a'' True
             = (Inr (emitted ''a'' 0 0 (chunks (effective_chunk example_store) [4 :: byte])), c2)
         \<and> (\<forall>d \<in> set (docs (Collection st2)).
               ID d = ''a'' \<longrightarrow> Seq d < of_nat (length (chunks (effective_chunk example_store) [4 :: byte])))
         \<and> Read st2 ''a'' = (Inr stream, st3) \<and> io_ReadAll stream = [4]
         \<and> Size st2 ''a'' = (Inr (int (length [4 :: byte])), st4))"
proof -
  have h: "[4 :: byte] \<noteq> []" "length [4 :: byte] < 2 ^ 63" by simp_all
  from overwrite_truncates [OF example_store_ok h, of "''a''" "[1, 2, 3]"] example_store_ok h
  show ?thesis by blast
qed

text \<open>
  With an empty \<open>B2\<close> the second write removes the blob: reading it back and sizing
  it both report not-found.
\<close>

theorem overwrite_with_empty_not_found:
  "Write example_store ''a'' (Some (bytes_NewReader [1, 2, 3])) =
     Some (None, one_blob_store\<lparr>Collection := (Collection one_blob_store)\<lparr>trips := 3\<rparr>\<rparr>)
   \<and> Write (one_blob_store\<lparr>Collection := (Collection one_blob_store)\<lparr>trips := 3\<rparr>\<rparr>) ''a''
         (Some (bytes_NewReader [])) =
     Some (None, example_store\<lparr>Collection := empty_collection\<lparr>trips := 4\<rparr>\<rparr>)
   \<and> fst (Read (example_store\<lparr>Collection := empty_collection\<lparr>trips := 4\<rparr>\<rparr>) ''a'')
       = Inl ErrNotFound
   \<and> fst (Size (example_store\<lparr>Collection := empty_collection\<lparr>trips := 4\<rparr>\<rparr>) ''a'')
       = Inl ErrNotFound"
proof -
  let ?s1 = "one_blob_store\<lparr>Collection := (Collection one_blob_store)\<lparr>trips := 3\<rparr>\<rparr>"
  let ?s2 = "example_store\<lparr>Collection := empty_collection\<lparr>trips := 4\<rparr>\<rparr>"
  have ch: "chunks 2 [1, 2, 3 :: byte] = [[1, 2], [3]]"
    by (simp add: chunks.simps)
  have C: "effective_chunk example_store = 2"
    by (simp add: effective_chunk_def example_store_def)
  have "Write example_store ''a'' (Some (bytes_NewReader [1, 2, 3])) = Some (None, ?s1)"
    by (simp add: Write_bytes [OF example_store_ok(1)] C ch written_def upsert_seg_def
          word_le_nat_alt)
       (simp add: one_blob_store_def example_store_def empty_collection_def)
  moreover
  have f1: "faults (Collection ?s1) = []"
    by (simp add: one_blob_store_def example_store_def empty_collection_def)
  have "Write ?s1 ''a'' (Some (bytes_NewReader [])) = Some (None, ?s2)"
    by (simp add: Write_bytes [OF f1] written_empty)
       (simp add: one_blob_store_def example_store_def empty_collection_def)
  moreover have "fst (Read ?s2 ''a'') = Inl ErrNotFound"
    by (simp add: Read_ok empty_collection_def blob_segments_def)
  moreover have "fst (Size ?s2 ''a'') = Inl ErrNotFound"
    by (simp add: Size_ok empty_collection_def blob_segments_def)
  ultimately show ?thesis by simp
qed

section \<open>Size\<close>

text \<open>
  Claim C4, as the code has it: for every non-empty byte sequence \<open>B\<close> (shorter than
  \<open>2^63\<close> bytes), on a collection that answers and has unique keys, \<open>Size\<close> after
  \<open>Write\<close> of \<open>B\<close> returns the length of \<open>B\<close>; the value is \<open>start + n\<close> of a
  segment of the blob with the highest \<open>seq\<close>, and it does not depend on the payload
  of any document.
\<close>

theorem size_after_write:
  assumes "faults (Collection st) = []" "unique_keys (docs (Collection st))"
    and "B \<noteq> []" "length B < 2 ^ 63"
  shows "\<exists>st' st''.
           Write st bid (Some (bytes_NewReader B)) = Some (None, st')
         \<and> Size st' bid = (Inr (int (length B)), st'')
         \<and> (\<exists>lst \<in> set (docs (Collection st')).
               ID lst = bid
             \<and> (\<forall>d \<in> set (docs (Collection st')). ID d = bid \<longrightarrow> Seq d \<le> Seq lst)
             \<and> sint (Start lst + N lst) = int (length B))
         \<and> (\<forall>f. fst (Size (st'\<lparr>Collection := (Collection st')
                              \<lparr>docs := map (\<lambda>d. d\<lparr>Data := f d\<rparr>) (docs (Collection st'))\<rparr>\<rparr>) bid)
                  = fst (Size st' bid))"
proof -
  let ?C = "effective_chunk st"
  from Write_bytes_result [OF assms(1,2) length_bound_63 [OF assms(4)], of bid]
  obtain st' where w: "Write st bid (Some (bytes_NewReader B)) = Some (None, st')"
    and f: "faults (Collection st') = []"
    and segs: "blob_segments (docs (Collection st')) bid = emitted bid 0 0 (chunks ?C B)"
    by blast
  let ?S = "blob_segments (docs (Collection st')) bid"
  have ne: "?S \<noteq> []" using assms(3) by (simp add: segs chunks_eq_Nil effective_chunk_pos)
  from after_write_read_size(2) [OF f segs effective_chunk_pos assms(3,4)]
  obtain st'' where sz: "Size st' bid = (Inr (int (length B)), st'')" by blast
  then have "sint (Start (last ?S) + N (last ?S)) = int (length B)"
    using ne by (simp add: Size_ok [OF f])
  with blob_segments_last [OF ne]
  have "\<exists>lst \<in> set (docs (Collection st')).
               ID lst = bid
             \<and> (\<forall>d \<in> set (docs (Collection st')). ID d = bid \<longrightarrow> Seq d \<le> Seq lst)
             \<and> sint (Start lst + N lst) = int (length B)"
    by blast
  with w sz Size_ignores_payloads [where st = st' and bid = bid] show ?thesis by blast
qed

text \<open>The size of the three-byte blob.\<close>

theorem size_after_write_witness:
  "faults (Collection example_store) = [] \<and> unique_keys (docs (Collection example_store))
   \<and> [1, 2, 3 :: byte] \<noteq> [] \<and> length [1, 2, 3 :: byte] < 2 ^ 63
   \<and> (\<exists>st' st''.
           Write example_store ''a'' (Some (bytes_NewReader [1, 2, 3])) = Some (None, st')
         \<and> Size st' ''a'' = (Inr (int (length [1, 2, 3 :: byte])), st'')
         \<and> (\<exists>lst \<in> set (docs (Collection st')).
               ID lst = ''a''
             \<and> (\<forall>d \<in> set (docs (Collection st')). ID d = ''a'' \<longrightarrow> Seq d \<le> Seq lst)
             \<and> sint (Start lst + N lst) = int (length [1, 2, 3 :: byte]))
         \<and> (\<forall>f. fst (Size (st'\<lparr>Collection := (Collection st')
                              \<lparr>docs := map (\<lambda>d. d\<lparr>Data := f d\<rparr>) (docs (Collection st'))\<rparr>\<rparr>) ''a'')
                  = fst (Size st' ''a'')))"
proof -
  have h: "[1, 2, 3 :: byte] \<noteq> []" "length [1, 2, 3 :: byte] < 2 ^ 63" by simp_all
  from size_after_write [OF example_store_ok h, of "''a''"] example_store_ok h
  show ?thesis by blast
qed

text \<open>
  After a write of the empty sequence \<open>Size\<close> does not return 0 but not-found.
\<close>

theorem empty_write_then_size_not_found:
  "Write (example_store\<lparr>ChunkSize := 1024\<rparr>) ''blob'' (Some (bytes_NewReader [])) =
     Some (None, example_store\<lparr>ChunkSize := 1024, Collection := empty_collection\<lparr>trips := 1\<rparr>\<rparr>)
   \<and> Size (example_store\<lparr>ChunkSize := 1024, Collection := empty_collection\<lparr>trips := 1\<rparr>\<rparr>) ''blob''
       = (Inl ErrNotFound,
          example_store\<lparr>ChunkSize := 1024, Collection := empty_collection\<lparr>trips := 2\<rparr>\<rparr>)"
proof -
  have f: "faults (Collection (example_store\<lparr>ChunkSize := 1024\<rparr>)) = []"
    by (simp add: example_store_def empty_collection_def)
  have "Write (example_store\<lparr>ChunkSize := 1024\<rparr>) ''blob'' (Some (bytes_NewReader [])) =
     Some (None, example_store\<lparr>ChunkSize := 1024, Collection := empty_collection\<lparr>trips := 1\<rparr>\<rparr>)"
    by (simp add: Write_bytes [OF f] written_empty)
       (simp add: example_store_def empty_collection_def)
  moreover have "Size (example_store\<lparr>ChunkSize := 1024, Collection := empty_collection\<lparr>trips := 1\<rparr>\<rparr>) ''blob''
       = (Inl ErrNotFound,
          example_store\<lparr>ChunkSize := 1024, Collection := empty_collection\<lparr>trips := 2\<rparr>\<rparr>)"
    by (simp add: Size_ok empty_collection_def blob_segments_def example_store_def)
  ultimately show ?thesis by simp
qed

section \<open>Segment boundaries\<close>

text \<open>
  Claim C5: for every positive chunk size \<open>C\<close> and every \<open>k \<ge> 1\<close>, on a collection
  that answers and has unique keys, writing exactly \<open>k * C\<close> bytes leaves exactly \<open>k\<close>
  segments, each of length \<open>C\<close>, and writing \<open>k * C + r\<close> bytes with \<open>0 < r < C\<close>
  leaves exactly \<open>k + 1\<close> segments, the last of length \<open>r\<close> and all others of length
  \<open>C\<close>. The write makes one round trip per segment and one for the final delete.
\<close>

theorem segment_boundaries:
  assumes "0 < C" "ChunkSize st = int C"
    and "faults (Collection st) = []" "unique_keys (docs (Collection st))"
    and "1 \<le> k" "r < C" "length B = k * C + r" "length B < 2 ^ 63"
  shows "\<exists>st' segs c'.
           Write st bid (Some (bytes_NewReader B)) = Some (None, st')
         \<and> Find (Collection st') bid True = (Inr segs, c')
         \<and> (r = 0 \<longrightarrow>
               length segs = k \<and> trips (Collection st') = trips (Collection st) + k + 1
             \<and> (\<forall>d \<in> set segs. length (Data d) = C \<and> N d = of_nat C))
         \<and> (0 < r \<longrightarrow>
               length segs = k + 1 \<and> trips (Collection st') = trips (Collection st) + k + 2
             \<and> length (Data (last segs)) = r \<and> N (last segs) = of_nat r
             \<and> (\<forall>d \<in> set (butlast segs). length (Data d) = C \<and> N d = of_nat C))"
proof -
  have C: "effective_chunk st = C" using assms(1,2) by (rule effective_chunk_eq)
  from Write_bytes_result [OF assms(3,4) length_bound_63 [OF assms(8)], of bid]
  obtain st' where w: "Write st bid (Some (bytes_NewReader B)) = Some (None, st')"
    and f: "faults (Collection st') = []"
    and segs: "blob_segments (docs (Collection st')) bid = emitted bid 0 0 (chunks C B)"
    and tr: "trips (Collection st') = Suc (trips (Collection st) + length (chunks C B))"
    unfolding C by blast
  let ?segs = "emitted bid 0 0 (chunks C B)"
  have find: "Find (Collection st') bid True
                = (Inr ?segs, (Collection st')\<lparr>trips := Suc (trips (Collection st'))\<rparr>)"
    by (simp add: Find_ok [OF f] segs)
  have lens: "map length (chunks C B) = replicate k C @ (if r = 0 then [] else [r])"
    using assms(1,6,7) by (rule chunk_lengths)
  have dl: "map (\<lambda>d. length (Data d)) ?segs = map length (chunks C B)"
    using map_Data_emitted [of bid 0 0 "chunks C B"]
    by (metis (no_types, lifting) map_map o_def map_eq_conv)
  have dn: "map N ?segs = map (\<lambda>d. of_nat (length (Data d))) ?segs"
    by (simp add: map_N_emitted) (metis (no_types, lifting) map_Data_emitted map_map o_def map_eq_conv)
  have nk: "length (chunks C B) = (if r = 0 then k else k + 1)"
    using arg_cong [OF lens, of length] by (simp split: if_splits)
  have A: "length ?segs = k \<and> trips (Collection st') = trips (Collection st) + k + 1
             \<and> (\<forall>d \<in> set ?segs. length (Data d) = C \<and> N d = of_nat C)" if r: "r = 0"
  proof -
    have all: "\<forall>d \<in> set ?segs. length (Data d) = C"
    proof
      fix d assume "d \<in> set ?segs"
      then have "length (Data d) \<in> set (map (\<lambda>d. length (Data d)) ?segs)" by simp
      then show "length (Data d) = C" unfolding dl lens using r by simp
    qed
    moreover have "\<forall>d \<in> set ?segs. N d = of_nat (length (Data d))"
      using dn by (simp add: map_eq_conv)
    ultimately show ?thesis using nk tr r by simp
  qed
  have Bc: "length ?segs = k + 1 \<and> trips (Collection st') = trips (Collection st) + k + 2
             \<and> length (Data (last ?segs)) = r \<and> N (last ?segs) = of_nat r
             \<and> (\<forall>d \<in> set (butlast ?segs). length (Data d) = C \<and> N d = of_nat C)" if r: "0 < r"
  proof -
    have ne: "?segs \<noteq> []" using nk r by auto
    have n: "\<forall>d \<in> set ?segs. N d = of_nat (length (Data d))"
      using dn by (simp add: map_eq_conv)
    have "length (Data (last ?segs)) = last (map (\<lambda>d. length (Data d)) ?segs)"
      using ne by (simp add: last_map)
    also have "\<dots> = r" unfolding dl lens using r by simp
    finally have l: "length (Data (last ?segs)) = r" .
    have bl: "map (\<lambda>d. length (Data d)) (butlast ?segs) = replicate k C"
      using arg_cong [OF dl, of butlast] r unfolding lens by (simp add: map_butlast butlast_append)
    have "\<forall>d \<in> set (butlast ?segs). length (Data d) = C"
    proof
      fix d assume "d \<in> set (butlast ?segs)"
      then have "length (Data d) \<in> set (map (\<lambda>d. length (Data d)) (butlast ?segs))" by simp
      then show "length (Data d) = C" unfolding bl by simp
    qed
    moreover have "\<forall>d \<in> set (butlast ?segs). N d = of_nat (length (Data d))"
      using n by (meson in_set_butlastD)
    moreover have "N (last ?segs) = of_nat r" using n ne l by (metis last_in_set)
    ultimately show ?thesis using nk tr r l by simp
  qed
  from w find A Bc show ?thesis by blast
qed

text \<open>Three bytes in chunks of two: \<open>k = 1\<close>, \<open>r = 1\<close>.\<close>

theorem segment_boundaries_witness:
  "0 < (2::nat) \<and> ChunkSize example_store = int 2
   \<and> faults (Collection example_store) = [] \<and> unique_keys (docs (Collection example_store))
   \<and> (1::nat) \<le> 1 \<and> (1::nat) < 2 \<and> length [1, 2, 3 :: byte] = 1 * 2 + 1
   \<and> length [1, 2, 3 :: byte] < 2 ^ 63
   \<and> (\<exists>st' segs c'.
           Write example_store ''a'' (Some (bytes_NewReader [1, 2, 3])) = Some (None, st')
         \<and> Find (Collection st') ''a'' True = (Inr segs, c')
         \<and> length segs = 1 + 1 \<and> trips (Collection st') = trips (Collection example_store) + 1 + 2
         \<and> length (Data (last segs)) = 1 \<and> N (last segs) = of_nat 1
         \<and> (\<forall>d \<in> set (butlast segs). length (Data d) = 2 \<and> N d = of_nat 2))"
proof -
  have h: "0 < (2::nat)" "ChunkSize example_store = int 2"
    "faults (Collection example_store) = []" "unique_keys (docs (Collection example_store))"
    "(1::nat) \<le> 1" "(1::nat) < 2" "length [1, 2, 3 :: byte] = 1 * 2 + 1"
    "length [1, 2, 3 :: byte] < 2 ^ 63"
    by (simp_all add: example_store_def empty_collection_def unique_keys_def)
  from segment_boundaries [OF h, of "''a''"] h show ?thesis by auto
qed

section \<open>Not found\<close>

text \<open>
  Claim C6: \<open>Read\<close> and \<open>Size\<close> fail with \<open>ErrNotFound\<close> exactly when the query
  is answered and no segment exists for the id; in particular on an id never written and,
  after a \<open>Remove\<close> that names the id, on an id that was written before. A failed
  query gives the store's error, which is a different value. \<open>Read\<close> returns either
  the error or a stream, so nothing is delivered before the check.
\<close>

theorem not_found_iff_no_segments:
  "(fst (Read st bid) = Inl ErrNotFound
      \<longleftrightarrow> \<not> next_fails (Collection st) \<and> (\<forall>d \<in> set (docs (Collection st)). ID d \<noteq> bid))
   \<and> (fst (Size st bid) = Inl ErrNotFound
      \<longleftrightarrow> \<not> next_fails (Collection st) \<and> (\<forall>d \<in> set (docs (Collection st)). ID d \<noteq> bid))
   \<and> (bid \<in> set ids \<and> faults (Collection st) = [] \<longrightarrow>
        (\<exists>st'. Remove st ids = (None, st')
              \<and> fst (Read st' bid) = Inl ErrNotFound
              \<and> fst (Size st' bid) = Inl ErrNotFound))"
proof (intro conjI impI)
  show "fst (Read st bid) = Inl ErrNotFound
      \<longleftrightarrow> \<not> next_fails (Collection st) \<and> (\<forall>d \<in> set (docs (Collection st)). ID d \<noteq> bid)"
    by (simp add: Read_result blob_segments_Nil)
  show "fst (Size st bid) = Inl ErrNotFound
      \<longleftrightarrow> \<not> next_fails (Collection st) \<and> (\<forall>d \<in> set (docs (Collection st)). ID d \<noteq> bid)"
    by (simp add: Size_result blob_segments_Nil)
next
  assume a: "bid \<in> set ids \<and> faults (Collection st) = []"
  then have ne: "ids \<noteq> []" and f: "faults (Collection st) = []" by auto
  let ?st' = "st\<lparr>Collection := (snd (round_trip (Collection st)))
                 \<lparr>docs := filter (\<lambda>d. ID d \<notin> set ids) (docs (Collection st))\<rparr>\<rparr>"
  have r: "Remove st ids = (None, ?st')"
    using ne next_fails_reliable [OF f] by (rule Remove_result)
  have f': "faults (Collection ?st') = []" using f by (simp add: round_trip_ok)
  have "blob_segments (docs (Collection ?st')) bid = []"
    using a by (auto simp add: blob_segments_Nil)
  moreover have "\<not> next_fails (Collection ?st')" by (rule next_fails_reliable [OF f'])
  ultimately have "fst (Read ?st' bid) = Inl ErrNotFound" "fst (Size ?st' bid) = Inl ErrNotFound"
    by (simp_all add: Read_result Size_result)
  with r show "\<exists>st'. Remove st ids = (None, st')
              \<and> fst (Read st' bid) = Inl ErrNotFound
              \<and> fst (Size st' bid) = Inl ErrNotFound"
    by blast
qed

text \<open>
  The empty store has no blob \<open>a\<close>; the one-blob store has it, and loses it by
  \<open>Remove\<close>.
\<close>

theorem not_found_iff_no_segments_witness:
  "fst (Read example_store ''a'') = Inl ErrNotFound
   \<and> fst (Size example_store ''a'') = Inl ErrNotFound
   \<and> fst (Read one_blob_store ''a'') \<noteq> Inl ErrNotFound
   \<and> fst (Size one_blob_store ''a'') \<noteq> Inl ErrNotFound
   \<and> ''a'' \<in> set [''a''] \<and> faults (Collection one_blob_store) = []
   \<and> (\<exists>st'. Remove one_blob_store [''a''] = (None, st')
            \<and> fst (Read st' ''a'') = Inl ErrNotFound
            \<and> fst (Size st' ''a'') = Inl ErrNotFound)"
proof -
  have e: "\<not> next_fails (Collection example_store)"
    "\<forall>d \<in> set (docs (Collection example_store)). ID d \<noteq> ''a''"
    by (simp_all add: next_fails_reliable example_store_ok)
       (simp add: example_store_def empty_collection_def)
  have o: "\<not> (\<forall>d \<in> set (docs (Collection one_blob_store)). ID d \<noteq> ''a'')"
    by (simp add: one_blob_store_def example_store_def empty_collection_def)
  have h: "''a'' \<in> set [''a'']" "faults (Collection one_blob_store) = []"
    by (simp_all add: one_blob_store_ok)
  from not_found_iff_no_segments [of example_store "''a''" "[]"] e
  have 1: "fst (Read example_store ''a'') = Inl ErrNotFound"
    "fst (Size example_store ''a'') = Inl ErrNotFound"
    by blast+
  from not_found_iff_no_segments [of one_blob_store "''a''" "[''a'']"] o h
  have 2: "fst (Read one_blob_store ''a'') \<noteq> Inl ErrNotFound"
    "fst (Size one_blob_store ''a'') \<noteq> Inl ErrNotFound"
    "\<exists>st'. Remove one_blob_store [''a''] = (None, st')
            \<and> fst (Read st' ''a'') = Inl ErrNotFound
            \<and> fst (Size st' ''a'') = Inl ErrNotFound"
    by blast+
  from 1 2 h show ?thesis by blast
qed

section \<open>Remove\<close>

text \<open>
  Claim C7: \<open>Remove\<close> with no identity returns success and leaves the store handle as
  it was: no round trip is made, even where the next one would fail. With identities,
  when the round trip succeeds, it deletes every segment of every given identity in that
  one round trip and returns success, whether or not an identity has segments.
\<close>

theorem remove_deletes_all:
  "Remove st [] = (None, st)
   \<and> (ids \<noteq> [] \<and> \<not> next_fails (Collection st) \<longrightarrow>
        (\<exists>c'. Remove st ids = (None, st\<lparr>Collection := c'\<rparr>)
             \<and> docs c' = filter (\<lambda>d. ID d \<notin> set ids) (docs (Collection st))
             \<and> trips c' = Suc (trips (Collection st))))"
proof (intro conjI impI)
  show "Remove st [] = (None, st)" by (simp add: Remove_def)
next
  assume "ids \<noteq> [] \<and> \<not> next_fails (Collection st)"
  then have "Remove st ids =
     (None, st\<lparr>Collection := (snd (round_trip (Collection st)))
                 \<lparr>docs := filter (\<lambda>d. ID d \<notin> set ids) (docs (Collection st))\<rparr>\<rparr>)"
    by (simp add: Remove_result)
  moreover have "docs ((snd (round_trip (Collection st)))
                 \<lparr>docs := filter (\<lambda>d. ID d \<notin> set ids) (docs (Collection st))\<rparr>)
              = filter (\<lambda>d. ID d \<notin> set ids) (docs (Collection st))" by simp
  moreover have "trips ((snd (round_trip (Collection st)))
                 \<lparr>docs := filter (\<lambda>d. ID d \<notin> set ids) (docs (Collection st))\<rparr>)
              = Suc (trips (Collection st))" by simp
  ultimately show "\<exists>c'. Remove st ids = (None, st\<lparr>Collection := c'\<rparr>)
             \<and> docs c' = filter (\<lambda>d. ID d \<notin> set ids) (docs (Collection st))
             \<and> trips c' = Suc (trips (Collection st))"
    by blast
qed

text \<open>
  No identity on a store whose next round trip would fail; and two identities, one of
  them without segments, on the one-blob store.
\<close>

theorem remove_deletes_all_witness:
  "Remove (one_blob_store\<lparr>Collection := (Collection one_blob_store)\<lparr>faults := [True]\<rparr>\<rparr>) []
     = (None, one_blob_store\<lparr>Collection := (Collection one_blob_store)\<lparr>faults := [True]\<rparr>\<rparr>)
   \<and> [''a'', ''zz''] \<noteq> [] \<and> \<not> next_fails (Collection one_blob_store)
   \<and> (\<exists>c'. Remove one_blob_store [''a'', ''zz''] = (None, one_blob_store\<lparr>Collection := c'\<rparr>)
          \<and> docs c' = filter (\<lambda>d. ID d \<notin> set [''a'', ''zz'']) (docs (Collection one_blob_store))
          \<and> trips c' = Suc (trips (Collection one_blob_store)))"
proof -
  have h: "[''a'', ''zz''] \<noteq> []" "\<not> next_fails (Collection one_blob_store)"
    by (simp_all add: next_fails_reliable one_blob_store_ok)
  from remove_deletes_all
         [of "one_blob_store\<lparr>Collection := (Collection one_blob_store)\<lparr>faults := [True]\<rparr>\<rparr>" "[]"]
  have 1: "Remove (one_blob_store\<lparr>Collection := (Collection one_blob_store)\<lparr>faults := [True]\<rparr>\<rparr>) []
     = (None, one_blob_store\<lparr>Collection := (Collection one_blob_store)\<lparr>faults := [True]\<rparr>\<rparr>)"
    by blast
  from remove_deletes_all [of one_blob_store "[''a'', ''zz'']"] h
  have "\<exists>c'. Remove one_blob_store [''a'', ''zz''] = (None, one_blob_store\<lparr>Collection := c'\<rparr>)
          \<and> docs c' = filter (\<lambda>d. ID d \<notin> set [''a'', ''zz'']) (docs (Collection one_blob_store))
          \<and> trips c' = Suc (trips (Collection one_blob_store))"
    by blast
  with 1 h show ?thesis by blast
qed

section \<open>Contiguous offsets\<close>




section \<open>Empty segments\<close>

text \<open>
  Claim C10 says that \<open>Write\<close> never persists a segment with \<open>n = 0\<close>, as the comment
  \<^verbatim>\<open>n > 0 is guaranteed\<close> in the loop does. It does not hold for a reader whose
  \<^verbatim>\<open>Read\<close> itself answers \<open>(0, io.ErrUnexpectedEOF)\<close>: \<^verbatim>\<open>io.ReadAtLeast\<close> passes
  that error on with \<open>n = 0\<close>, the loop truncates the buffer to length 0 and persists
  an empty segment, and from then on every pass through the loop reads nothing and
  persists another empty segment. The write ends only when a round trip fails.
\<close>

theorem unexpected_eof_persists_empty_segments:
  "Write failing_store ''a'' (Some failing_reader) =
     Some (Some ErrStore,
           example_store\<lparr>Collection := empty_collection
             \<lparr>docs := [\<lparr>ID = ''a'', Seq = 0, Data = [], Start = 0, N = 0\<rparr>,
                       \<lparr>ID = ''a'', Seq = 1, Data = [], Start = 0, N = 0\<rparr>],
              trips := 3\<rparr>\<rparr>)"
  by (simp add: Write_def failing_store_def failing_reader_def example_store_def
        empty_collection_def Write_loop.simps ReadAtLeast_def ReadAtLeast_loop.simps
        reader_Read_def after_read_def ReplaceOne_def round_trip_def DefaultChunkSize_def
        Let_def)

text \<open>On a store that always answers the same write never returns.\<close>

theorem unexpected_eof_never_returns:
  "Write example_store ''a'' (Some failing_reader) = None"
proof -
  let ?seg = "\<lparr>ID = ''a'', Seq = 0, Data = [], Start = 0, N = 0\<rparr>"
  let ?c = "empty_collection\<lparr>docs := [?seg], trips := 1\<rparr>"
  have step: "Write_loop empty_collection failing_reader
          \<lparr>ID = ''a'', Seq = 0, Data = replicate 2 0, Start = 0, N = 0\<rparr> 0
        = Write_loop ?c (script_Reader []) (?seg\<lparr>Seq := 1\<rparr>) 0"
    by (subst Write_loop.simps)
       (simp add: failing_reader_def empty_collection_def ReadAtLeast_def
          ReadAtLeast_loop.simps reader_Read_def after_read_def ReplaceOne_def round_trip_def)
  have "Write_loop ?c (script_Reader []) (?seg\<lparr>Seq := 1\<rparr>) 0 = None"
  proof (cases "Write_loop ?c (script_Reader []) (?seg\<lparr>Seq := 1\<rparr>) 0")
    case None
    then show ?thesis .
  next
    case (Some y)
    from Write_loop_empty_buffer_never_returns [OF this] show ?thesis
      by (simp add: empty_collection_def)
  qed
  with step show ?thesis
    by (simp add: Write_def example_store_def DefaultChunkSize_def Let_def)
qed

text \<open>
  For a stream that \<^verbatim>\<open>bytes.NewReader\<close> delivers, every segment of the written blob has
  between 1 and the chunk size bytes, and \<open>n\<close> is the length of the payload.
\<close>

lemma bytes_segments_nonempty:
  assumes "faults (Collection st) = []" "unique_keys (docs (Collection st))"
    and "length B < 2 ^ 63"
  shows "\<exists>st'. Write st bid (Some (bytes_NewReader B)) = Some (None, st')
           \<and> (\<forall>d \<in> set (blob_segments (docs (Collection st')) bid).
                 1 \<le> length (Data d) \<and> length (Data d) \<le> effective_chunk st
               \<and> N d = of_nat (length (Data d)))"
proof -
  from Write_bytes_result [OF assms(1,2) length_bound_63 [OF assms(3)], of bid]
  obtain st' where w: "Write st bid (Some (bytes_NewReader B)) = Some (None, st')"
    and segs: "blob_segments (docs (Collection st')) bid
                 = emitted bid 0 0 (chunks (effective_chunk st) B)"
    by blast
  have "1 \<le> length (Data d) \<and> length (Data d) \<le> effective_chunk st
          \<and> N d = of_nat (length (Data d))"
    if "d \<in> set (emitted bid 0 0 (chunks (effective_chunk st) B))" for d
  proof -
    from emitted_fields [OF that]
    have "Data d \<in> set (chunks (effective_chunk st) B)" "N d = of_nat (length (Data d))"
      by simp_all
    moreover from chunks_bounds [OF this(1)]
    have "Data d \<noteq> []" "length (Data d) \<le> effective_chunk st" by simp_all
    moreover from this(1) have "1 \<le> length (Data d)" by (simp add: Suc_le_eq)
    ultimately show ?thesis by blast
  qed
  with w segs show ?thesis by auto
qed

section \<open>Index creation\<close>

text \<open>
  In a run where the calls follow one another, the guard of \<open>EnsureIndex\<close> lets the
  first call make one round trip and makes every later call return \<open>nil\<close> without
  one. What \<^verbatim>\<open>sync.Once\<close> does for calls that overlap in time is a property of the Go
  run time; a state-passing model has no overlapping calls.
\<close>

lemma EnsureIndex_again:
  "EnsureIndex (snd (EnsureIndex st)) = (None, snd (EnsureIndex st))"
  by (simp add: EnsureIndex_def split: prod.split)

lemma EnsureIndex_first:
  "\<not> index st \<Longrightarrow> trips (Collection (snd (EnsureIndex st))) = Suc (trips (Collection st))"
  by (subst EnsureIndex_def, subst CreateOne_def, subst round_trip_cases)
     (simp split: bool.split)

end
